theory Spec2Isabelle
  imports Complex_Main "HOL-Library.Multiset" "HOL-Library.Sublist"
begin

section \<open>JavaScript numbers\<close>

text \<open>
  The sources compute with JavaScript numbers, which are IEEE 754 binary64 values. A finite
  number is modelled by the rational it denotes, and every arithmetic result is rounded to
  the nearest value with a 53-bit significand, ties to the even significand. The exponent
  range is not bounded here: overflow to an infinity, subnormal numbers and NaN are outside
  the model (the numbers of this program are sample counts, millisecond durations and
  percentages).
\<close>

text \<open>Number of binary digits of a positive integer.\<close>

function bitlen :: "int \<Rightarrow> nat" where
  "bitlen a = (if a \<le> 0 then 0 else Suc (bitlen (a div 2)))"
  by pat_completeness auto
termination
  by (relation "measure nat") auto

declare bitlen.simps [simp del]

text \<open>
  A fraction \<open>a / b\<close> divided by \<open>2 ^ e\<close>, for an exponent \<open>e\<close> of either sign, is
  \<open>num_sh a e / den_sh b e\<close>.
\<close>

definition num_sh :: "int \<Rightarrow> int \<Rightarrow> int" where
  "num_sh a e = a * 2 ^ nat (- e)"

definition den_sh :: "int \<Rightarrow> int \<Rightarrow> int" where
  "den_sh b e = b * 2 ^ nat e"

text \<open>The binary exponent of a positive fraction: \<open>2 ^ e \<le> a / b < 2 ^ (e + 1)\<close>.\<close>

definition ilog2_frac :: "int \<Rightarrow> int \<Rightarrow> int" where
  "ilog2_frac a b =
     (let e0 = int (bitlen a) - int (bitlen b)
      in if den_sh b e0 \<le> num_sh a e0 then e0 else e0 - 1)"

text \<open>The integer nearest to \<open>a / b\<close>, a tie going to the even neighbour.\<close>

definition round_half_even_div :: "int \<Rightarrow> int \<Rightarrow> int" where
  "round_half_even_div a b =
     (let f = a div b; r = a mod b
      in if b < 2 * r \<or> (2 * r = b \<and> odd f) then f + 1 else f)"

text \<open>
  Rounding of \<open>a / b\<close> (with \<open>a \<noteq> 0\<close>, \<open>0 < b\<close>) to 53 significant bits: the unit in the
  last place is \<open>2 ^ (e - 52)\<close> for the binary exponent \<open>e\<close> of the magnitude.
\<close>

definition round_frac :: "int \<Rightarrow> int \<Rightarrow> rat" where
  "round_frac a b =
     (let u = ilog2_frac \<bar>a\<bar> b - 52
      in of_int (round_half_even_div (num_sh a u) (den_sh b u)) * 2 powi u)"

definition round_double :: "rat \<Rightarrow> rat" where
  "round_double q = (case quotient_of q of (a, b) \<Rightarrow> if a = 0 then 0 else round_frac a b)"

definition js_add :: "rat \<Rightarrow> rat \<Rightarrow> rat" where
  "js_add x y = round_double (x + y)"

definition js_mul :: "rat \<Rightarrow> rat \<Rightarrow> rat" where
  "js_mul x y = round_double (x * y)"

text \<open>Division by zero gives an infinity or NaN in JavaScript; callers here exclude it.\<close>

definition js_div :: "rat \<Rightarrow> rat \<Rightarrow> rat" where
  "js_div x y = round_double (x / y)"

text \<open>A decimal literal of the source text denotes the double nearest to it.\<close>

definition lit_0_95 :: rat where
  "lit_0_95 = round_double (95 / 100)"

definition lit_0_99 :: rat where
  "lit_0_99 = round_double (99 / 100)"

text \<open>
  The floor of the double product of an integer \<open>n\<close> and the double \<open>m / d\<close>, computed on
  integers (lemma \<open>floor_js_mul\<close> below).
\<close>

definition floor_index :: "int \<Rightarrow> int \<Rightarrow> int \<Rightarrow> int" where
  "floor_index n m d =
     (let u = ilog2_frac (abs (n * m)) d - 52;
          r = round_half_even_div (num_sh (n * m) u) (den_sh d u)
      in if 0 \<le> u then r * 2 ^ nat u else r div 2 ^ nat (- u))"

text \<open>\<^verbatim>\<open>Math.floor\<close>, on a finite number.\<close>

definition math_floor :: "rat \<Rightarrow> int" where
  "math_floor x = \<lfloor>x\<rfloor>"

section \<open>lib/utils.ts: PerformanceMonitor\<close>

datatype cache_status = Hit | Miss | Stale

record PerformanceMetrics =
  responseTime :: rat
  cacheStatus :: cache_status
  region :: string
  timestamp :: string

text \<open>
  The monitor's only mutable field is \<^verbatim>\<open>metrics\<close>, so its state is the list of samples,
  oldest first. \<^verbatim>\<open>maxMetrics\<close> is a private field initialised to 100 and never assigned.
\<close>

type_synonym PerformanceMonitor = "PerformanceMetrics list"

definition maxMetrics :: int where
  "maxMetrics = 100"

text \<open>
  \<^verbatim>\<open>Array.prototype.slice(start)\<close> with an integral \<open>start\<close>: a negative start counts from
  the end and is clamped at the beginning, a non-negative one is clamped at the length.
  \<^verbatim>\<open>-0\<close> is zero.
\<close>

definition js_slice_from :: "int \<Rightarrow> 'a list \<Rightarrow> 'a list" where
  "js_slice_from start xs =
     (let len = int (length xs);
          k = (if start < 0 then max (len + start) 0 else min start len)
      in drop (nat k) xs)"

text \<open>\<^verbatim>\<open>addMetric\<close>: push, then keep only the last \<^verbatim>\<open>maxMetrics\<close> samples.\<close>

definition addMetric :: "PerformanceMetrics \<Rightarrow> PerformanceMonitor \<Rightarrow> PerformanceMonitor" where
  "addMetric metric metrics =
     (let pushed = metrics @ [metric]
      in if int (length pushed) > maxMetrics then js_slice_from (- maxMetrics) pushed
         else pushed)"

text \<open>The result of \<^verbatim>\<open>getStats\<close>; its field \<^verbatim>\<open>count\<close> is \<open>count_stat\<close> here.\<close>

record Stats =
  count_stat :: int
  averageResponseTime :: rat
  cacheHitRate :: rat
  p95ResponseTime :: rat
  p99ResponseTime :: rat

text \<open>
  \<^verbatim>\<open>xs[i] || 0\<close>: an index outside the array reads \<^verbatim>\<open>undefined\<close>, which is falsy, and so
  is the number zero; both give 0.
\<close>

definition index_or_0 :: "rat list \<Rightarrow> int \<Rightarrow> rat" where
  "index_or_0 xs i =
     (if 0 \<le> i \<and> i < int (length xs) then (if xs ! nat i = 0 then 0 else xs ! nat i) else 0)"

text \<open>
  \<^verbatim>\<open>getStats\<close>. The comparator \<^verbatim>\<open>(a, b) => a - b\<close> sorts finite numbers ascending. The sum
  starts from 0 and adds from the left, as \<^verbatim>\<open>reduce\<close> does.
\<close>

definition getStats :: "PerformanceMonitor \<Rightarrow> Stats" where
  "getStats metrics =
     (if length metrics = 0 then
        \<lparr>count_stat = 0, averageResponseTime = 0, cacheHitRate = 0,
         p95ResponseTime = 0, p99ResponseTime = 0\<rparr>
      else
        (let responseTimes = sort (map responseTime metrics);
             cacheHits = length (filter (\<lambda>m. cacheStatus m = Hit) metrics);
             n = of_int (int (length responseTimes));
             p95Index = math_floor (js_mul n lit_0_95);
             p99Index = math_floor (js_mul n lit_0_99)
         in \<lparr>count_stat = int (length metrics),
             averageResponseTime = js_div (foldl js_add 0 responseTimes) n,
             cacheHitRate =
               js_mul (js_div (of_int (int cacheHits)) (of_int (int (length metrics)))) 100,
             p95ResponseTime = index_or_0 responseTimes p95Index,
             p99ResponseTime = index_or_0 responseTimes p99Index\<rparr>))"

text \<open>\<^verbatim>\<open>getRecentMetrics(limit)\<close> is \<^verbatim>\<open>this.metrics.slice(-limit)\<close>.\<close>

definition getRecentMetrics :: "int \<Rightarrow> PerformanceMonitor \<Rightarrow> PerformanceMetrics list" where
  "getRecentMetrics limit metrics = js_slice_from (- limit) metrics"

text \<open>The monitor after \<^verbatim>\<open>addMetric\<close> has been called on each sample in turn, from new.\<close>

definition recorded :: "PerformanceMetrics list \<Rightarrow> PerformanceMonitor" where
  "recorded samples = foldl (\<lambda>metrics metric. addMetric metric metrics) [] samples"

text \<open>A sample with a given response time, and the hundred samples 10, 20, ..., 1000.\<close>

definition sample :: "rat \<Rightarrow> PerformanceMetrics" where
  "sample t = \<lparr>responseTime = t, cacheStatus = Miss, region = ''iad1'', timestamp = []\<rparr>"

definition hit_sample :: "rat \<Rightarrow> PerformanceMetrics" where
  "hit_sample t = \<lparr>responseTime = t, cacheStatus = Hit, region = ''iad1'', timestamp = []\<rparr>"

definition tens :: "rat list" where
  "tens = map (\<lambda>i. 10 * of_nat i) [1..<101]"

text \<open>
  A hundred samples of which seven are hits, and four samples of which three are hits.
\<close>

definition seven_hits_of_100 :: "PerformanceMetrics list" where
  "seven_hits_of_100 = replicate 7 (hit_sample 5) @ replicate 93 (sample 5)"

definition three_hits_of_4 :: "PerformanceMetrics list" where
  "three_hits_of_4 = [hit_sample 30, hit_sample 10, sample 20, hit_sample 40]"

section \<open>lib/utils.ts: RateLimiter\<close>

text \<open>
  Timestamps are \<^verbatim>\<open>Date.now()\<close> readings, integral milliseconds. \<^verbatim>\<open>maxRequests\<close> and
  \<^verbatim>\<open>windowMs\<close> are fixed by the constructor; every construction in the sources passes
  integers (1000 and 60000; the defaults are 100 and 60000).
\<close>

record RateLimiter =
  requests :: "string \<rightharpoonup> int list"
  maxRequests :: int
  windowMs :: int

text \<open>
  \<^verbatim>\<open>isAllowed(identifier)\<close>, with the reading of \<^verbatim>\<open>Date.now()\<close> it takes as the argument
  \<open>now\<close>. An absent history reads as the empty array. On rejection nothing is stored,
  the pruned array included.
\<close>

definition isAllowed :: "string \<Rightarrow> int \<Rightarrow> RateLimiter \<Rightarrow> bool \<times> RateLimiter" where
  "isAllowed identifier now rl =
     (let requestTimes = (case requests rl identifier of None \<Rightarrow> [] | Some ts \<Rightarrow> ts);
          validRequests = filter (\<lambda>time. now - time < windowMs rl) requestTimes
      in if int (length validRequests) \<ge> maxRequests rl then (False, rl)
         else (True, rl\<lparr>requests := (requests rl)(identifier \<mapsto> validRequests @ [now])\<rparr>))"

text \<open>The timestamps on record for an identifier: \<^verbatim>\<open>this.requests.get(identifier) || []\<close>.\<close>

definition history :: "RateLimiter \<Rightarrow> string \<Rightarrow> int list" where
  "history rl identifier = (case requests rl identifier of None \<Rightarrow> [] | Some ts \<Rightarrow> ts)"

text \<open>Successive calls for one identifier, at the given clock readings; the answers in order.\<close>

fun isAllowed_calls :: "string \<Rightarrow> int list \<Rightarrow> RateLimiter \<Rightarrow> bool list \<times> RateLimiter" where
  "isAllowed_calls identifier [] rl = ([], rl)"
| "isAllowed_calls identifier (now # later) rl =
     (case isAllowed identifier now rl of
        (answer, rl') \<Rightarrow>
          (case isAllowed_calls identifier later rl' of
             (answers, rl'') \<Rightarrow> (answer # answers, rl'')))"

text \<open>
  The admission rule in the specification's words, for comparison: the window is the closed
  interval from \<open>now - windowMs\<close> to \<open>now\<close>.
\<close>

definition isAllowed_closed_window :: "string \<Rightarrow> int \<Rightarrow> RateLimiter \<Rightarrow> bool \<times> RateLimiter" where
  "isAllowed_closed_window identifier now rl =
     (let requestTimes = (case requests rl identifier of None \<Rightarrow> [] | Some ts \<Rightarrow> ts);
          pruned = filter (\<lambda>time. now - windowMs rl \<le> time \<and> time \<le> now) requestTimes
      in if int (length pruned) < maxRequests rl
         then (True, rl\<lparr>requests := (requests rl)(identifier \<mapsto> pruned @ [now])\<rparr>)
         else (False, rl))"

text \<open>
  A limiter of 5 requests per 1000 ms without history, and its state after five calls for
  the identifier \<open>id\<close>, all at time 0.
\<close>

definition limiter_5_1000 :: RateLimiter where
  "limiter_5_1000 = \<lparr>requests = Map.empty, maxRequests = 5, windowMs = 1000\<rparr>"

definition after_five_at_0 :: RateLimiter where
  "after_five_at_0 = snd (isAllowed_calls ''id'' [0, 0, 0, 0, 0] limiter_5_1000)"

section \<open>Values, the clock and the durable store\<close>

text \<open>
  Cached values have the source type \<^verbatim>\<open>any\<close>. They are modelled as JSON values or
  \<^verbatim>\<open>undefined\<close>; numbers are finite. Functions, symbols, BigInts, cyclic objects and
  \<^verbatim>\<open>undefined\<close> nested inside an array or object are outside the type, so that a value
  written to the store reads back unchanged.
\<close>

datatype json =
  JNull | JBool bool | JNum rat | JStr string | JArr "json list" | JObj "(string \<times> json) list"

datatype jsval = Undefined | Json json

text \<open>JavaScript truthiness: \<^verbatim>\<open>undefined\<close>, \<^verbatim>\<open>null\<close>, \<^verbatim>\<open>false\<close>, \<^verbatim>\<open>0\<close> and \<^verbatim>\<open>""\<close> are falsy.\<close>

fun truthy :: "jsval \<Rightarrow> bool" where
  "truthy Undefined = False"
| "truthy (Json JNull) = False"
| "truthy (Json (JBool b)) = b"
| "truthy (Json (JNum x)) = (x \<noteq> 0)"
| "truthy (Json (JStr s)) = (s \<noteq> [])"
| "truthy (Json (JArr xs)) = True"
| "truthy (Json (JObj fs)) = True"

datatype js_error = KVError | TypeError | RangeError | FetchError

text \<open>
  \<^verbatim>\<open>JSONData\<close> of lib/database.ts. The two time stamps are kept as epoch milliseconds, not
  as their ISO strings. \<^verbatim>\<open>metadata.size\<close> and \<^verbatim>\<open>metadata.format\<close> are never read by the
  code modelled here and are left out; the exception that computing \<^verbatim>\<open>size\<close> can raise is
  kept in \<open>db_set\<close>. A \<open>jd_data\<close> of \<open>Undefined\<close> is a stored record without the field.
\<close>

record JSONData =
  jd_id :: string
  jd_data :: jsval
  jd_timestamp :: int
  jd_version :: int
  jd_expires :: "int option"

text \<open>An entry of \<^verbatim>\<open>memoryCache\<close>.\<close>

record mem_entry =
  data :: jsval
  expires :: int

datatype kv_call =
  KvGet string | KvSet string | KvSetex string int | KvDel string | KvKeys string

text \<open>The lines the cache writes to the console, by the call that writes them.\<close>

datatype log_line =
  LogMemoryHit string
| LogKVHit string
| WarnKVError string js_error
| LogMiss string
| ErrorFetcher string js_error
| ErrorSet string js_error
| ErrorInvalidate string js_error
| ErrorInvalidatePattern string js_error
| ErrorClear js_error

text \<open>
  The state the cache runs in: the \<^verbatim>\<open>memoryCache\<close> map of the one \<^verbatim>\<open>EdgeCache\<close> instance, the
  durable store with the requests made to it so far, the system clock and the console.
  \<^item> \<open>clock\<close> and \<open>ticks\<close>: the \<open>i\<close>-th reading of the system clock returns \<open>clock i\<close>, and
    \<open>ticks\<close> readings have been taken.
  \<^item> \<open>kv_faults\<close>: the outcome the store has in stock for the coming requests, one entry per
    request, \<open>True\<close> for a request that fails (time-out, connection error, rejected
    argument); when the list is used up, requests succeed.
  \<^item> Entries that the store expires by itself leave \<open>kv_store\<close> between operations, not
    during one.
\<close>

record world =
  memoryCache :: "string \<rightharpoonup> mem_entry"
  kv_store :: "(string \<times> JSONData) list"
  kv_faults :: "bool list"
  kv_calls :: "kv_call list"
  clock :: "nat \<Rightarrow> int"
  ticks :: nat
  console :: "log_line list"

type_synonym 'a result = "js_error + 'a"

text \<open>\<^verbatim>\<open>Date.now()\<close>, and the time of \<^verbatim>\<open>new Date()\<close>.\<close>

definition date_now :: "world \<Rightarrow> int \<times> world" where
  "date_now w = (clock w (ticks w), w\<lparr>ticks := Suc (ticks w)\<rparr>)"

text \<open>
  \<^verbatim>\<open>toISOString\<close> raises a RangeError on a time value outside the range of \<^verbatim>\<open>Date\<close>.
\<close>

definition valid_time :: "int \<Rightarrow> bool" where
  "valid_time t = (\<bar>t\<bar> \<le> 8640000000000000)"

definition console_log :: "log_line \<Rightarrow> world \<Rightarrow> world" where
  "console_log l w = w\<lparr>console := console w @ [l]\<rparr>"


text \<open>
  Every request is recorded in \<open>kv_calls\<close> and takes the next outcome in stock:
  \<open>next_request_ok\<close> tells whether the coming request will be answered, \<open>after_request\<close> is
  the state once it has been made.
\<close>

definition next_request_ok :: "world \<Rightarrow> bool" where
  "next_request_ok w = (case kv_faults w of [] \<Rightarrow> True | f # fs \<Rightarrow> \<not> f)"

definition after_request :: "kv_call \<Rightarrow> world \<Rightarrow> world" where
  "after_request c w = w\<lparr>kv_faults := tl (kv_faults w), kv_calls := kv_calls w @ [c]\<rparr>"

definition kv_request :: "kv_call \<Rightarrow> world \<Rightarrow> bool \<times> world" where
  "kv_request c w = (next_request_ok w, after_request c w)"

definition kv_get :: "string \<Rightarrow> world \<Rightarrow> JSONData option result \<times> world" where
  "kv_get key w =
     (case kv_request (KvGet key) w of
        (ok, w1) \<Rightarrow> if ok then (Inr (map_of (kv_store w1) key), w1) else (Inl KVError, w1))"

definition store_put :: "string \<Rightarrow> JSONData \<Rightarrow> world \<Rightarrow> world" where
  "store_put key jd w = w\<lparr>kv_store := (key, jd) # filter (\<lambda>p. fst p \<noteq> key) (kv_store w)\<rparr>"

definition kv_set :: "string \<Rightarrow> JSONData \<Rightarrow> world \<Rightarrow> unit result \<times> world" where
  "kv_set key jd w =
     (case kv_request (KvSet key) w of
        (ok, w1) \<Rightarrow> if ok then (Inr (), store_put key jd w1) else (Inl KVError, w1))"

definition kv_setex :: "string \<Rightarrow> int \<Rightarrow> JSONData \<Rightarrow> world \<Rightarrow> unit result \<times> world" where
  "kv_setex key seconds jd w =
     (case kv_request (KvSetex key seconds) w of
        (ok, w1) \<Rightarrow> if ok then (Inr (), store_put key jd w1) else (Inl KVError, w1))"

definition kv_del :: "string \<Rightarrow> world \<Rightarrow> unit result \<times> world" where
  "kv_del key w =
     (case kv_request (KvDel key) w of
        (ok, w1) \<Rightarrow>
          if ok then (Inr (), w1\<lparr>kv_store := filter (\<lambda>p. fst p \<noteq> key) (kv_store w1)\<rparr>)
          else (Inl KVError, w1))"


section \<open>lib/database.ts\<close>

text \<open>
  \<^verbatim>\<open>db.set\<close>. The object literal is evaluated field by field: the time stamp reads the
  clock; \<^verbatim>\<open>JSON.stringify(data).length\<close> raises a TypeError when \<^verbatim>\<open>data\<close> is \<^verbatim>\<open>undefined\<close>;
  the expiry reads the clock again, only for a truthy TTL. Then a truthy TTL writes with
  \<^verbatim>\<open>setex\<close>, a falsy one with \<^verbatim>\<open>set\<close>, which never expires.
\<close>

definition db_set :: "string \<Rightarrow> jsval \<Rightarrow> int \<Rightarrow> world \<Rightarrow> unit result \<times> world" where
  "db_set key dat ttlSeconds w =
     (case date_now w of
        (stamp, w1) \<Rightarrow>
          if dat = Undefined then (Inl TypeError, w1)
          else if ttlSeconds \<noteq> 0 then
            (case date_now w1 of
               (now, w2) \<Rightarrow>
                 if \<not> valid_time (now + ttlSeconds * 1000) then (Inl RangeError, w2)
                 else kv_setex key ttlSeconds
                        \<lparr>jd_id = key, jd_data = dat, jd_timestamp = stamp, jd_version = 1,
                         jd_expires = Some (now + ttlSeconds * 1000)\<rparr> w2)
          else kv_set key
                 \<lparr>jd_id = key, jd_data = dat, jd_timestamp = stamp, jd_version = 1,
                  jd_expires = None\<rparr> w1)"

definition db_get :: "string \<Rightarrow> world \<Rightarrow> JSONData option result \<times> world" where
  "db_get key w = kv_get key w"

definition db_delete :: "string \<Rightarrow> world \<Rightarrow> unit result \<times> world" where
  "db_delete key w = kv_del key w"


section \<open>lib/cache.ts: EdgeCache\<close>

definition CACHE_PREFIX :: string where
  "CACHE_PREFIX = ''cache:''"

definition DEFAULT_TTL :: int where
  "DEFAULT_TTL = 60"

text \<open>A parameter \<^verbatim>\<open>ttl: number = DEFAULT_TTL\<close>: the default stands in for an omitted argument.\<close>

definition ttl_or_default :: "int option \<Rightarrow> int" where
  "ttl_or_default ttl = (case ttl of None \<Rightarrow> DEFAULT_TTL | Some t \<Rightarrow> t)"

definition memory_put :: "string \<Rightarrow> mem_entry \<Rightarrow> world \<Rightarrow> world" where
  "memory_put cacheKey e w = w\<lparr>memoryCache := (memoryCache w)(cacheKey \<mapsto> e)\<rparr>"

definition memory_delete :: "string \<Rightarrow> world \<Rightarrow> world" where
  "memory_delete cacheKey w = w\<lparr>memoryCache := (memoryCache w)(cacheKey := None)\<rparr>"

text \<open>
  \<^verbatim>\<open>set\<close>: the store first; the memory entry is written only when \<^verbatim>\<open>db.set\<close> has not raised,
  with the clock read after it. An exception is caught and logged.
\<close>

definition set_cache :: "string \<Rightarrow> jsval \<Rightarrow> int option \<Rightarrow> world \<Rightarrow> world" where
  "set_cache key dat ttl_arg w =
     (let ttl = ttl_or_default ttl_arg; cacheKey = CACHE_PREFIX @ key
      in case db_set cacheKey dat ttl w of
           (Inl err, w1) \<Rightarrow> console_log (ErrorSet key err) w1
         | (Inr u, w1) \<Rightarrow>
             (case date_now w1 of
                (now, w2) \<Rightarrow>
                  memory_put cacheKey \<lparr>data = dat, expires = now + min (ttl * 1000) 10000\<rparr> w2))"

text \<open>
  A fetcher is the caller's asynchronous function: it acts on the state and resolves to a
  value or rejects.
\<close>

type_synonym fetcher = "world \<Rightarrow> jsval result \<times> world"

text \<open>
  Step 1 of \<^verbatim>\<open>get\<close>: the memory cache. The clock is read only when the key has an entry.
  \<open>Some v\<close> is the early return of \<open>v\<close>.
\<close>

definition get_memory :: "string \<Rightarrow> string \<Rightarrow> world \<Rightarrow> jsval option \<times> world" where
  "get_memory key cacheKey w =
     (case memoryCache w cacheKey of
        None \<Rightarrow> (None, w)
      | Some memoryCached \<Rightarrow>
          (case date_now w of
             (now, w1) \<Rightarrow>
               if expires memoryCached > now
               then (Some (data memoryCached), console_log (LogMemoryHit key) w1)
               else (None, w1)))"

text \<open>
  Step 2: the store. A record counts only when its \<^verbatim>\<open>data\<close> is truthy; then the memory entry
  is written with a window of 10000 ms. An exception of \<^verbatim>\<open>db.get\<close> is caught and logged.
\<close>

definition get_kv :: "string \<Rightarrow> string \<Rightarrow> world \<Rightarrow> jsval option \<times> world" where
  "get_kv key cacheKey w =
     (case db_get cacheKey w of
        (Inl err, w1) \<Rightarrow> (None, console_log (WarnKVError key err) w1)
      | (Inr None, w1) \<Rightarrow> (None, w1)
      | (Inr (Some kvCached), w1) \<Rightarrow>
          if truthy (jd_data kvCached) then
            (case date_now (console_log (LogKVHit key) w1) of
               (now, w2) \<Rightarrow>
                 (Some (jd_data kvCached),
                  memory_put cacheKey \<lparr>data = jd_data kvCached, expires = now + 10000\<rparr> w2))
          else (None, w1))"

text \<open>
  Step 3: the fetcher, when there is one. Its value is stored through \<^verbatim>\<open>set\<close> and returned
  whether or not storing worked; a rejection is logged and gives \<^verbatim>\<open>null\<close>.
\<close>

definition get_fresh :: "string \<Rightarrow> fetcher option \<Rightarrow> int \<Rightarrow> world \<Rightarrow> jsval \<times> world" where
  "get_fresh key fetcher ttl w =
     (case fetcher of
        None \<Rightarrow> (Json JNull, w)
      | Some f \<Rightarrow>
          (case f (console_log (LogMiss key) w) of
             (Inl err, w1) \<Rightarrow> (Json JNull, console_log (ErrorFetcher key err) w1)
           | (Inr freshData, w1) \<Rightarrow> (freshData, set_cache key freshData (Some ttl) w1)))"

definition get :: "string \<Rightarrow> fetcher option \<Rightarrow> int option \<Rightarrow> world \<Rightarrow> jsval \<times> world" where
  "get key fetcher ttl_arg w =
     (let ttl = ttl_or_default ttl_arg; cacheKey = CACHE_PREFIX @ key
      in case get_memory key cacheKey w of
           (Some v, w1) \<Rightarrow> (v, w1)
         | (None, w1) \<Rightarrow>
             (case get_kv key cacheKey w1 of
                (Some v, w2) \<Rightarrow> (v, w2)
              | (None, w2) \<Rightarrow> get_fresh key fetcher ttl w2))"

definition invalidate :: "string \<Rightarrow> world \<Rightarrow> world" where
  "invalidate key w =
     (let cacheKey = CACHE_PREFIX @ key
      in case db_delete cacheKey w of
           (Inl err, w1) \<Rightarrow> console_log (ErrorInvalidate key err) w1
         | (Inr u, w1) \<Rightarrow> memory_delete cacheKey w1)"





definition cleanupMemory :: "world \<Rightarrow> world" where
  "cleanupMemory w =
     (case date_now w of
        (now, w1) \<Rightarrow>
          w1\<lparr>memoryCache :=
               (\<lambda>key. case memoryCache w1 key of
                         None \<Rightarrow> None
                       | Some v \<Rightarrow> if expires v \<le> now then None else Some v)\<rparr>)"

section \<open>Vocabulary of the statements and example states\<close>

text \<open>
  Whether step 1 of \<^verbatim>\<open>get\<close> would return from the memory cache at the coming clock reading,
  and the state in which step 2 starts when it does not: the clock has been read if the key
  had an entry.
\<close>

definition memory_fresh :: "string \<Rightarrow> world \<Rightarrow> bool" where
  "memory_fresh cacheKey w =
     (case memoryCache w cacheKey of None \<Rightarrow> False | Some e \<Rightarrow> clock w (ticks w) < expires e)"

definition after_memory_miss :: "string \<Rightarrow> world \<Rightarrow> world" where
  "after_memory_miss cacheKey w =
     (case memoryCache w cacheKey of None \<Rightarrow> w | Some e \<Rightarrow> w\<lparr>ticks := Suc (ticks w)\<rparr>)"

text \<open>
  An empty cache over an empty, healthy store, with a clock that starts at 1000 and advances
  by one millisecond per reading.
\<close>

definition world0 :: world where
  "world0 =
     \<lparr>memoryCache = Map.empty, kv_store = [], kv_faults = [], kv_calls = [],
      clock = (\<lambda>i. 1000 + int i), ticks = 0, console = []\<rparr>"

definition record_of :: "string \<Rightarrow> jsval \<Rightarrow> JSONData" where
  "record_of key v =
     \<lparr>jd_id = key, jd_data = v, jd_timestamp = 0, jd_version = 1, jd_expires = None\<rparr>"

text \<open>The store holds the string \<open>v\<close> for the key \<open>k\<close>; the memory cache is empty.\<close>

definition world_stored :: world where
  "world_stored = world0\<lparr>kv_store := [(''cache:k'', record_of ''cache:k'' (Json (JStr ''v'')))]\<rparr>"

text \<open>The store holds the number 0 for the key \<open>k\<close>.\<close>

definition world_stored_zero :: world where
  "world_stored_zero = world0\<lparr>kv_store := [(''cache:k'', record_of ''cache:k'' (Json (JNum 0)))]\<rparr>"

text \<open>
  Both tiers hold the string \<open>v\<close> for \<open>k\<close> and for the empty key, and the store also holds a
  key outside the cache's prefix; the memory entries expire at 5000.
\<close>

definition world_both :: world where
  "world_both =
     world0\<lparr>memoryCache :=
              [''cache:k'' \<mapsto> \<lparr>data = Json (JStr ''v''), expires = 5000\<rparr>,
               ''cache:'' \<mapsto> \<lparr>data = Json (JStr ''v''), expires = 5000\<rparr>],
            kv_store :=
              [(''cache:k'', record_of ''cache:k'' (Json (JStr ''v''))),
               (''user:1'', record_of ''user:1'' (Json (JStr ''u''))),
               (''cache:'', record_of ''cache:'' (Json (JStr ''v'')))]\<rparr>"

text \<open>The same with a store that fails the next request.\<close>

definition world_both_down :: world where
  "world_both_down = world_both\<lparr>kv_faults := [True]\<rparr>"

text \<open>An empty cache over a store that answers the next request and fails the one after.\<close>

definition world_flaky :: world where
  "world_flaky = world0\<lparr>kv_faults := [False, True]\<rparr>"

text \<open>The memory cache holds an entry for \<open>k\<close> that expired at 900; the store holds \<open>fresh\<close>.\<close>

definition world_expired :: world where
  "world_expired =
     world0\<lparr>memoryCache := [''cache:k'' \<mapsto> \<lparr>data = Json (JStr ''old''), expires = 900\<rparr>],
            kv_store := [(''cache:k'', record_of ''cache:k'' (Json (JStr ''fresh'')))]\<rparr>"

text \<open>A fetcher that resolves to the string \<open>new\<close> and touches nothing.\<close>

definition fetch_new :: fetcher where
  "fetch_new w = (Inr (Json (JStr ''new'')), w)"

section \<open>Properties of the number model\<close>

text \<open>
  The rounding is a function of the value of the fraction, not of its representation, and
  so can be evaluated on integers; \<^verbatim>\<open>Math.floor(n * 0.95)\<close> and \<^verbatim>\<open>Math.floor(n * 0.99)\<close>, as the
  doubles compute them, agree with the exact quotients for every buffer length up to 100.
\<close>

lemma bitlen_bounds: "0 < a \<Longrightarrow> 2 ^ (bitlen a - 1) \<le> a \<and> a < 2 ^ bitlen a"
proof (induction a rule: bitlen.induct)
  case (1 a)
  show ?case
  proof (cases "a div 2 = 0")
    case True
    with "1.prems" have "a = 1" by linarith
    then show ?thesis by (simp add: bitlen.simps)
  next
    case False
    with "1.prems" have pos: "0 < a div 2" by linarith
    from "1.IH" "1.prems" pos
    have ih: "2 ^ (bitlen (a div 2) - 1) \<le> a div 2" "a div 2 < 2 ^ bitlen (a div 2)"
      by auto
    have k: "0 < bitlen (a div 2)" using pos by (subst bitlen.simps) simp
    have b: "bitlen a = Suc (bitlen (a div 2))" using "1.prems" by (subst bitlen.simps) simp
    obtain k' where k': "bitlen (a div 2) = Suc k'" using k by (cases "bitlen (a div 2)") auto
    from ih show ?thesis unfolding b k' by (simp) linarith
  qed
qed

lemma bitlen_pos: "0 < a \<Longrightarrow> 0 < bitlen a"
  by (subst bitlen.simps) simp

lemma den_sh_pos: "0 < b \<Longrightarrow> 0 < den_sh b e"
  by (simp add: den_sh_def)

lemma sh_le_iff:
  assumes "0 < b"
  shows "den_sh b e \<le> num_sh a e \<longleftrightarrow> 2 powi e \<le> (of_int a / of_int b :: rat)"
proof (cases "0 \<le> e")
  case True
  define n where "n = nat e"
  have bp: "(0::rat) < of_int b" using assms by simp
  have "(2 powi e \<le> (of_int a / of_int b :: rat)) = ((2::rat) ^ n * of_int b \<le> of_int a)"
    using True bp by (simp add: power_int_def n_def pos_le_divide_eq)
  also have "\<dots> = ((of_int (2 ^ n * b) :: rat) \<le> of_int a)" by simp
  also have "\<dots> = (2 ^ n * b \<le> a)" by (rule of_int_le_iff)
  finally show ?thesis using True by (simp add: num_sh_def den_sh_def n_def mult.commute)
next
  case False
  define n where "n = nat (- e)"
  have bp: "(0::rat) < of_int b" using assms by simp
  have p: "(0::rat) < 2 ^ n" by simp
  have "(2 powi e \<le> (of_int a / of_int b :: rat)) = (1 / 2 ^ n \<le> (of_int a / of_int b :: rat))"
    using False by (simp add: power_int_def n_def power_one_over)
  also have "\<dots> = ((of_int b :: rat) \<le> of_int a * 2 ^ n)"
    using bp p by (simp add: field_simps)
  also have "\<dots> = ((of_int b :: rat) \<le> of_int (a * 2 ^ n))" by simp
  also have "\<dots> = (b \<le> a * 2 ^ n)" by (rule of_int_le_iff)
  finally show ?thesis using False by (simp add: num_sh_def den_sh_def n_def)
qed

lemma binade_unique:
  fixes q :: rat
  assumes "2 powi e \<le> q" "q < 2 powi (e + 1)" "2 powi e' \<le> q" "q < 2 powi (e' + 1)"
  shows "e = e'"
proof -
  have a: "e < e' + 1"
  proof (rule ccontr)
    assume "\<not> e < e' + 1"
    then have "(2::rat) powi (e' + 1) \<le> 2 powi e" by (intro power_int_increasing) auto
    with assms show False by linarith
  qed
  have b: "e' < e + 1"
  proof (rule ccontr)
    assume "\<not> e' < e + 1"
    then have "(2::rat) powi (e + 1) \<le> 2 powi e'" by (intro power_int_increasing) auto
    with assms show False by linarith
  qed
  from a b show ?thesis by linarith
qed

lemma ilog2_frac_bounds:
  assumes "0 < a" "0 < b"
  shows "2 powi (ilog2_frac a b) \<le> (of_int a / of_int b :: rat) \<and>
         (of_int a / of_int b :: rat) < 2 powi (ilog2_frac a b + 1)"
proof -
  let ?ka = "bitlen a" and ?kb = "bitlen b"
  let ?q = "of_int a / of_int b :: rat"
  let ?e0 = "int ?ka - int ?kb"
  have ka: "0 < ?ka" and kb: "0 < ?kb" using assms by (simp_all add: bitlen_pos)
  have a1: "(2::rat) ^ (?ka - 1) \<le> of_int a"
    using bitlen_bounds [OF assms(1)] of_int_le_iff [of "2 ^ (?ka - 1)" a, where ?'a = rat]
    by simp
  have a2: "(of_int a :: rat) < 2 ^ ?ka"
    using bitlen_bounds [OF assms(1)] of_int_less_iff [of a "2 ^ ?ka", where ?'a = rat]
    by simp
  have b1: "(2::rat) ^ (?kb - 1) \<le> of_int b"
    using bitlen_bounds [OF assms(2)] of_int_le_iff [of "2 ^ (?kb - 1)" b, where ?'a = rat]
    by simp
  have b2: "(of_int b :: rat) < 2 ^ ?kb"
    using bitlen_bounds [OF assms(2)] of_int_less_iff [of b "2 ^ ?kb", where ?'a = rat]
    by simp
  have bpos: "(0::rat) < of_int b" using assms by simp
  have apos: "(0::rat) < of_int a" using assms by simp
  have lo: "2 powi (?e0 - 1) \<le> ?q"
  proof -
    have "(2::rat) powi (?e0 - 1) = 2 ^ (?ka - 1) / 2 ^ ?kb"
    proof -
      have e: "?e0 - 1 = int (?ka - 1) - int ?kb" using ka by linarith
      have "(2::rat) powi (?e0 - 1) = 2 powi (int (?ka - 1) - int ?kb)" by (simp only: e)
      also have "\<dots> = 2 powi int (?ka - 1) / 2 powi int ?kb" by (rule power_int_diff) simp
      finally show ?thesis by simp
    qed
    also have "\<dots> \<le> of_int a / 2 ^ ?kb" using a1 by (simp add: divide_right_mono)
    also have "\<dots> \<le> of_int a / of_int b"
      using b2 apos bpos by (intro divide_left_mono) (auto simp: less_imp_le)
    finally show ?thesis .
  qed
  have hi: "?q < 2 powi (?e0 + 1)"
  proof -
    have "?q < 2 ^ ?ka / of_int b" using a2 bpos by (simp add: divide_strict_right_mono)
    also have "\<dots> \<le> 2 ^ ?ka / 2 ^ (?kb - 1)"
      using b1 bpos by (intro divide_left_mono) (auto intro: mult_pos_pos)
    also have "\<dots> = (2::rat) powi (?e0 + 1)"
    proof -
      have e: "?e0 + 1 = int ?ka - int (?kb - 1)" using kb by linarith
      have "(2::rat) powi (?e0 + 1) = 2 powi (int ?ka - int (?kb - 1))" by (simp only: e)
      also have "\<dots> = 2 powi int ?ka / 2 powi int (?kb - 1)" by (rule power_int_diff) simp
      finally show ?thesis by simp
    qed
    finally show ?thesis .
  qed
  show ?thesis
  proof (cases "den_sh b ?e0 \<le> num_sh a ?e0")
    case True
    then have "ilog2_frac a b = ?e0" by (simp add: ilog2_frac_def)
    moreover from True have "2 powi ?e0 \<le> ?q" by (simp add: sh_le_iff [OF assms(2)])
    ultimately show ?thesis using hi by simp
  next
    case False
    then have "ilog2_frac a b = ?e0 - 1" by (simp add: ilog2_frac_def)
    moreover from False have "?q < 2 powi ?e0" by (simp add: sh_le_iff [OF assms(2)])
    ultimately show ?thesis using lo by simp
  qed
qed

lemma ilog2_frac_scale:
  assumes "0 < a" "0 < b" "0 < k"
  shows "ilog2_frac (k * a) (k * b) = ilog2_frac a b"
proof -
  have q: "(of_int (k * a) / of_int (k * b) :: rat) = of_int a / of_int b"
    using assms by simp
  have ka: "0 < k * a" and kb: "0 < k * b" using assms by simp_all
  from ilog2_frac_bounds [OF ka kb] ilog2_frac_bounds [OF assms(1,2)]
  show ?thesis unfolding q by (blast intro: binade_unique)
qed

lemma round_half_even_div_scale:
  assumes "0 < k"
  shows "round_half_even_div (k * a) (k * b) = round_half_even_div a b"
proof -
  have d: "(k * a) div (k * b) = a div b" using assms by (simp only: div_mult_mult1_if) simp
  have m: "(k * a) mod (k * b) = k * (a mod b)" by (rule mult_mod_right [symmetric])
  have sw: "2 * (k * (a mod b)) = k * (2 * (a mod b))" by (rule mult.left_commute)
  have c1: "k * b < k * (2 * (a mod b)) \<longleftrightarrow> b < 2 * (a mod b)"
    using assms by (rule mult_less_cancel_left_pos)
  have c2: "k * (2 * (a mod b)) = k * b \<longleftrightarrow> 2 * (a mod b) = b"
    using assms by (simp only: mult_cancel_left) simp
  show ?thesis
    by (simp only: round_half_even_div_def d m Let_def sw c1 c2)
qed

lemma round_frac_scale:
  assumes "a \<noteq> 0" "0 < b" "0 < k"
  shows "round_frac (k * a) (k * b) = round_frac a b"
proof -
  have abs: "abs (k * a) = k * abs a" using assms by (simp add: abs_mult)
  have l: "ilog2_frac (abs (k * a)) (k * b) = ilog2_frac (abs a) b"
    unfolding abs using assms by (intro ilog2_frac_scale) auto
  have n: "num_sh (k * a) u = k * num_sh a u" for u by (simp add: num_sh_def)
  have d: "den_sh (k * b) u = k * den_sh b u" for u by (simp add: den_sh_def)
  show ?thesis
    unfolding round_frac_def l Let_def n d round_half_even_div_scale [OF assms(3)] ..
qed

lemma round_double_frac:
  assumes "0 < b"
  shows "round_double (of_int a / of_int b) = (if a = 0 then 0 else round_frac a b)"
proof -
  let ?g = "gcd a b"
  have g: "0 < ?g" using assms by (simp add: gcd_pos_int)
  have q: "quotient_of (of_int a / of_int b) = (a div ?g, b div ?g)"
    using assms
    by (simp add: Rat.normalize_def Let_def flip: Fract_of_int_quotient quotient_of_Fract
        add: quotient_of_Fract)
  have a: "a = ?g * (a div ?g)" and b: "b = ?g * (b div ?g)" by simp_all
  have bp: "0 < b div ?g" using assms g b by (metis zero_less_mult_pos)
  show ?thesis
  proof (cases "a = 0")
    case True
    then show ?thesis by (simp add: round_double_def)
  next
    case False
    then have nz: "a div ?g \<noteq> 0" using a by (metis mult_zero_right)
    have "round_frac a b = round_frac (?g * (a div ?g)) (?g * (b div ?g))"
      using a b by simp
    also have "\<dots> = round_frac (a div ?g) (b div ?g)"
      by (rule round_frac_scale [OF nz bp g])
    finally show ?thesis using False nz by (simp add: round_double_def q)
  qed
qed

lemma floor_round_frac:
  "math_floor (of_int r * 2 powi u) = (if 0 \<le> u then r * 2 ^ nat u else r div 2 ^ nat (- u))"
proof (cases "0 \<le> u")
  case True
  then have "(of_int r * 2 powi u :: rat) = of_int (r * 2 ^ nat u)" by (simp add: power_int_def)
  then show ?thesis using True unfolding math_floor_def by (simp only: floor_of_int if_True)
next
  case False
  then have "(of_int r * 2 powi u :: rat) = of_int r / of_int (2 ^ nat (- u))"
    by (simp add: power_int_def power_inverse field_simps)
  then show ?thesis using False unfolding math_floor_def
    by (simp only: floor_divide_of_int_eq if_False)
qed

lemma round_frac_eval:
  "round_frac a b =
     of_int (round_half_even_div (num_sh a (ilog2_frac (abs a) b - 52))
        (den_sh b (ilog2_frac (abs a) b - 52))) * 2 powi (ilog2_frac (abs a) b - 52)"
  by (simp add: round_frac_def Let_def)

lemmas double_eval = ilog2_frac_def num_sh_def den_sh_def round_half_even_div_def bitlen.simps Let_def

lemma lit_0_95_eq: "lit_0_95 = of_int 4278419646001971 / of_int 4503599627370496"
proof -
  have "lit_0_95 = round_double (of_int 95 / of_int 100)" by (simp add: lit_0_95_def)
  also have "\<dots> = round_frac 95 100" by (subst round_double_frac) simp_all
  also have "\<dots> = of_int 4278419646001971 / of_int 4503599627370496"
    by (simp add: round_frac_eval double_eval)
  finally show ?thesis .
qed

lemma lit_0_99_eq: "lit_0_99 = of_int 4458563631096791 / of_int 4503599627370496"
proof -
  have "lit_0_99 = round_double (of_int 99 / of_int 100)" by (simp add: lit_0_99_def)
  also have "\<dots> = round_frac 99 100" by (subst round_double_frac) simp_all
  also have "\<dots> = of_int 4458563631096791 / of_int 4503599627370496"
    by (simp add: round_frac_eval double_eval)
  finally show ?thesis .
qed

lemma floor_js_mul:
  assumes "0 < d" "n * m \<noteq> 0"
  shows "math_floor (js_mul (of_int n) (of_int m / of_int d)) = floor_index n m d"
proof -
  have "js_mul (of_int n) (of_int m / of_int d) = round_double (of_int (n * m) / of_int d)"
    by (simp add: js_mul_def)
  also have "\<dots> = round_frac (n * m) d"
    using assms by (simp only: round_double_frac if_False)
  finally show ?thesis
    by (simp only: round_frac_eval floor_round_frac floor_index_def Let_def)
qed


lemma round_half_even_div_lower:
  assumes "0 < d" "K * d \<le> n"
  shows "K \<le> round_half_even_div n d"
proof -
  have "K = (K * d) div d" using assms(1) by simp
  also have "\<dots> \<le> n div d" using assms by (intro zdiv_mono1) auto
  also have "\<dots> \<le> round_half_even_div n d" by (simp add: round_half_even_div_def Let_def)
  finally show ?thesis .
qed

lemma round_half_even_div_upper:
  assumes "0 < d" "n \<le> J * d"
  shows "round_half_even_div n d \<le> J"
proof (cases "n mod d = 0")
  case True
  then have "round_half_even_div n d = n div d"
    using assms(1) by (simp add: round_half_even_div_def Let_def)
  moreover have "n div d \<le> (J * d) div d" using assms by (intro zdiv_mono1) auto
  ultimately show ?thesis using assms(1) by simp
next
  case False
  have r: "0 < n mod d" using False assms(1) pos_mod_sign [of d n] by linarith
  have "n = (n div d) * d + n mod d" by simp
  with r assms(2) have "(n div d) * d < J * d" by linarith
  with assms(1) have "n div d < J" by (simp add: mult_less_cancel_right)
  moreover have "round_half_even_div n d \<le> n div d + 1"
    by (simp add: round_half_even_div_def Let_def)
  ultimately show ?thesis by linarith
qed

lemma ilog2_frac_less:
  assumes "0 < a" "0 < b" "a < b * 2 ^ m"
  shows "ilog2_frac a b < int m"
proof (rule ccontr)
  assume "\<not> ilog2_frac a b < int m"
  then have "(2::rat) powi (int m) \<le> 2 powi (ilog2_frac a b)"
    by (intro power_int_increasing) auto
  also have "\<dots> \<le> of_int a / of_int b" using ilog2_frac_bounds [OF assms(1,2)] by simp
  finally have "(2::rat) ^ m * of_int b \<le> of_int a"
    using assms(2) by (simp add: pos_le_divide_eq)
  then have "(of_int (2 ^ m * b) :: rat) \<le> of_int a" by simp
  then have "2 ^ m * b \<le> a" by (simp only: of_int_le_iff)
  with assms(3) show False by (simp add: mult.commute)
qed

text \<open>A quotient between k and k + 127/128 rounds to a double with floor k.\<close>

lemma floor_round_frac_between:
  assumes a: "0 < a" and b: "0 < b" and lo: "k * b \<le> a"
    and hi: "128 * a \<le> (128 * k + 127) * b" and small: "a < b * 2 ^ 45"
  shows "math_floor (round_frac a b) = k"
proof -
  define e where "e = ilog2_frac a b"
  define m where "m = nat (52 - e)"
  have e45: "e < 45" using ilog2_frac_less [OF a b small] by (simp add: e_def)
  have u: "e - 52 = - int m" and m7: "7 \<le> m" using e45 by (simp_all add: m_def)
  define R where "R = round_half_even_div (a * 2 ^ m) b"
  have rf: "round_frac a b = of_int R * 2 powi (- int m)"
    using a unfolding round_frac_def Let_def R_def
    by (simp add: e_def [symmetric] u num_sh_def den_sh_def)
  have p: "(2::rat) powi (- int m) = 1 / 2 ^ m"
    by (simp add: power_int_minus inverse_eq_divide)
  have lower: "k * 2 ^ m \<le> R"
    unfolding R_def
  proof (rule round_half_even_div_lower [OF b])
    have "k * 2 ^ m * b = (k * b) * 2 ^ m" by simp
    also have "\<dots> \<le> a * 2 ^ m" using lo by (intro mult_right_mono) auto
    finally show "k * 2 ^ m * b \<le> a * 2 ^ m" .
  qed
  obtain m' where m': "m = m' + 7" using m7 by (metis add.commute le_Suc_ex)
  have upper: "R \<le> (128 * k + 127) * 2 ^ m'"
    unfolding R_def
  proof (rule round_half_even_div_upper [OF b])
    have "a * 2 ^ m = (128 * a) * 2 ^ m'" by (simp add: m' power_add)
    also have "\<dots> \<le> ((128 * k + 127) * b) * 2 ^ m'" using hi by (intro mult_right_mono) auto
    finally show "a * 2 ^ m \<le> (128 * k + 127) * 2 ^ m' * b" by (simp add: ac_simps)
  qed
  have "R < (k + 1) * 2 ^ m"
  proof -
    have "(128 * k + 127) * 2 ^ m' < (128 * (k + 1)) * (2::int) ^ m'"
      by (intro mult_strict_right_mono) auto
    also have "\<dots> = (k + 1) * 2 ^ m" by (simp add: m' power_add)
    finally show ?thesis using upper by linarith
  qed
  then have d: "R div 2 ^ m = k" using lower
    by (intro int_div_pos_eq [where r = "R - k * 2 ^ m"]) (simp_all add: algebra_simps)
  show ?thesis
    unfolding rf using d m7 by (simp add: floor_round_frac)
qed


lemma mod95_nonzero: "\<not> 20 dvd (n::int) \<Longrightarrow> n * 95 mod 100 \<noteq> 0"
proof
  assume a: "\<not> 20 dvd n" and "n * 95 mod 100 = 0"
  then have "100 dvd n * 95" by (simp only: mod_eq_0_iff_dvd)
  moreover have "n * 95 = 5 * (n * 19)" by simp
  moreover have "(100::int) = 5 * 20" by simp
  ultimately have "5 * 20 dvd 5 * (n * 19)" by (simp only:)
  then have "20 dvd n * 19" by (simp only: dvd_mult_cancel_left) simp
  moreover have "20 dvd n * 20" by simp
  ultimately have "20 dvd n * 20 - n * 19" by (rule dvd_diff [rotated])
  moreover have "n * 20 - n * 19 = n" by simp
  ultimately have "20 dvd n" by (simp only:)
  with a show False by simp
qed
lemma mod95_dvd5: "5 dvd (n::int) * 95 mod 100"
  by (simp add: dvd_mod)
lemma mod95_bounds: "\<not> 20 dvd (n::int) \<Longrightarrow> 5 \<le> n * 95 mod 100 \<and> n * 95 mod 100 \<le> 95"
proof -
  assume a: "\<not> 20 dvd n"
  obtain j where j: "n * 95 mod 100 = 5 * j" using mod95_dvd5 [of n] by (auto simp: dvd_def)
  have "0 \<le> n * 95 mod 100" "n * 95 mod 100 < 100" by simp_all
  with mod95_nonzero [OF a] have "0 < 5 * j" "5 * j < 100" unfolding j by linarith+
  then have "1 \<le> j" "j \<le> 19" by linarith+
  then show ?thesis unfolding j by linarith
qed

lemma mod99_bounds: "\<not> 100 dvd (n::int) \<Longrightarrow> 1 \<le> n * 99 mod 100 \<and> n * 99 mod 100 \<le> 99"
proof -
  assume a: "\<not> 100 dvd n"
  have "n * 99 mod 100 \<noteq> 0"
  proof
    assume "n * 99 mod 100 = 0"
    then have "100 dvd n * 99" by (simp only: mod_eq_0_iff_dvd)
    moreover have "100 dvd n * 100" by simp
    ultimately have "100 dvd n * 100 - n * 99" by (rule dvd_diff [rotated])
    moreover have "n * 100 - n * 99 = n" by simp
    ultimately have "100 dvd n" by (simp only:)
    with a show False by simp
  qed
  moreover have "0 \<le> n * 99 mod 100" "n * 99 mod 100 < 100" by simp_all
  ultimately show ?thesis by linarith
qed

lemma index95_generic:
  fixes n :: int
  assumes "0 < n" "n \<le> 100" "\<not> 20 dvd n"
  shows "floor_index n 4278419646001971 4503599627370496 = n * 95 div 100"
proof -
  define k where "k = n * 95 div 100"
  define r where "r = n * 95 mod 100"
  have nk: "n * 95 = 100 * k + r" by (simp only: k_def r_def mult_div_mod_eq)
  have r: "5 \<le> r" "r \<le> 95" using mod95_bounds [OF assms(3)] by (simp_all only: r_def)
  have pos: "0 < n * 4278419646001971" using assms(1) by simp
  have "math_floor (round_frac (n * 4278419646001971) 4503599627370496) = k"
  proof (rule floor_round_frac_between [OF pos])
    show "k * 4503599627370496 \<le> n * 4278419646001971" using nk r assms by simp
    show "128 * (n * 4278419646001971) \<le> (128 * k + 127) * 4503599627370496"
      using nk r assms by simp
    show "n * 4278419646001971 < 4503599627370496 * 2 ^ 45" using assms by simp
  qed simp
  then show ?thesis
    by (simp only: round_frac_eval floor_round_frac floor_index_def Let_def k_def)
qed

lemma index99_generic:
  fixes n :: int
  assumes "0 < n" "n \<le> 100" "\<not> 100 dvd n"
  shows "floor_index n 4458563631096791 4503599627370496 = n * 99 div 100"
proof -
  define k where "k = n * 99 div 100"
  define r where "r = n * 99 mod 100"
  have nk: "n * 99 = 100 * k + r" by (simp only: k_def r_def mult_div_mod_eq)
  have r: "1 \<le> r" "r \<le> 99" using mod99_bounds [OF assms(3)] by (simp_all only: r_def)
  have pos: "0 < n * 4458563631096791" using assms(1) by simp
  have "math_floor (round_frac (n * 4458563631096791) 4503599627370496) = k"
  proof (rule floor_round_frac_between [OF pos])
    show "k * 4503599627370496 \<le> n * 4458563631096791" using nk r assms by simp
    show "128 * (n * 4458563631096791) \<le> (128 * k + 127) * 4503599627370496"
      using nk r assms by simp
    show "n * 4458563631096791 < 4503599627370496 * 2 ^ 45" using assms by simp
  qed simp
  then show ?thesis
    by (simp only: round_frac_eval floor_round_frac floor_index_def Let_def k_def)
qed

lemma index95_multiples:
  "floor_index 20 4278419646001971 4503599627370496 = 19"
  "floor_index 40 4278419646001971 4503599627370496 = 38"
  "floor_index 60 4278419646001971 4503599627370496 = 57"
  "floor_index 80 4278419646001971 4503599627370496 = 76"
  "floor_index 100 4278419646001971 4503599627370496 = 95"
  by (simp_all add: floor_index_def double_eval)

lemma index99_multiple:
  "floor_index 100 4458563631096791 4503599627370496 = 99"
  by (simp add: floor_index_def double_eval)

lemma index95:
  fixes n :: int
  assumes "0 < n" "n \<le> 100"
  shows "floor_index n 4278419646001971 4503599627370496 = n * 95 div 100"
proof (cases "20 dvd n")
  case False
  then show ?thesis using assms by (rule index95_generic [rotated 2])
next
  case True
  then obtain j where j: "n = 20 * j" by (auto simp: dvd_def)
  with assms have "1 \<le> j" "j \<le> 5" by linarith+
  then have "j = 1 \<or> j = 2 \<or> j = 3 \<or> j = 4 \<or> j = 5" by linarith
  then show ?thesis unfolding j by (elim disjE) (simp_all add: index95_multiples)
qed

lemma index99:
  fixes n :: int
  assumes "0 < n" "n \<le> 100"
  shows "floor_index n 4458563631096791 4503599627370496 = n * 99 div 100"
proof (cases "100 dvd n")
  case False
  then show ?thesis using assms by (rule index99_generic [rotated 2])
next
  case True
  then obtain j where j: "n = 100 * j" by (auto simp: dvd_def)
  with assms have "j = 1" by linarith
  then show ?thesis unfolding j by (simp add: index99_multiple)
qed

lemma p95_index:
  assumes "0 < n" "n \<le> 100"
  shows "math_floor (js_mul (of_int n) lit_0_95) = n * 95 div 100"
  using assms by (simp only: lit_0_95_eq) (subst floor_js_mul, simp_all add: index95)

lemma p99_index:
  assumes "0 < n" "n \<le> 100"
  shows "math_floor (js_mul (of_int n) lit_0_99) = n * 99 div 100"
  using assms by (simp only: lit_0_99_eq) (subst floor_js_mul, simp_all add: index99)

text \<open>
  Rounding moves a value by at most half a unit in the last place, so the hit rate that the
  doubles compute is close to the exact percentage; it is not always equal to it.
\<close>

lemma round_half_even_div_error:
  assumes "0 < d"
  shows "\<bar>of_int (round_half_even_div n d) - of_int n / of_int d\<bar> \<le> (1 / 2 :: rat)"
proof -
  define f where "f = n div d"
  define r where "r = n mod d"
  have n: "n = f * d + r" by (simp add: f_def r_def)
  have r: "0 \<le> r" "r < d" using assms by (simp_all add: r_def)
  have dp: "(0::rat) < of_int d" using assms by simp
  have q: "(of_int n / of_int d :: rat) = of_int f + of_int r / of_int d"
    using dp by (simp add: n add_divide_distrib)
  have fr: "(0::rat) \<le> of_int r / of_int d" using r dp by simp
  show ?thesis
  proof (cases "d < 2 * r \<or> (2 * r = d \<and> odd f)")
    case True
    then have v: "round_half_even_div n d = f + 1"
      by (simp add: round_half_even_div_def Let_def f_def r_def)
    from True have "d \<le> 2 * r" by auto
    then have "(of_int d :: rat) \<le> 2 * of_int r"
      by (metis of_int_le_iff of_int_mult of_int_numeral)
    then have "(1 / 2 :: rat) \<le> of_int r / of_int d" using dp by (simp add: le_divide_eq)
    moreover have "(of_int r / of_int d :: rat) < 1" using r dp by simp
    ultimately show ?thesis unfolding v q by simp
  next
    case False
    then have v: "round_half_even_div n d = f"
      by (simp add: round_half_even_div_def Let_def f_def r_def)
    from False have "2 * r \<le> d" by auto
    then have "2 * (of_int r :: rat) \<le> of_int d"
      by (metis of_int_le_iff of_int_mult of_int_numeral)
    then have "(of_int r / of_int d :: rat) \<le> 1 / 2" using dp by (simp add: divide_le_eq)
    then show ?thesis unfolding v q using fr by simp
  qed
qed

lemma sh_quotient:
  assumes "0 < b"
  shows "(of_int (num_sh a e) / of_int (den_sh b e) :: rat) = (of_int a / of_int b) / 2 powi e"
proof (cases "0 \<le> e")
  case True
  then show ?thesis by (simp add: num_sh_def den_sh_def power_int_def)
next
  case False
  then show ?thesis
    by (simp add: num_sh_def den_sh_def power_int_def power_one_over field_simps)
qed

lemma round_frac_error:
  assumes "a \<noteq> 0" "0 < b"
  shows "\<bar>round_frac a b - of_int a / of_int b\<bar> \<le> \<bar>of_int a / of_int b\<bar> / 2 ^ 53"
proof -
  define q :: rat where "q = of_int a / of_int b"
  define e where "e = ilog2_frac \<bar>a\<bar> b"
  define u where "u = e - 52"
  define R where "R = round_half_even_div (num_sh a u) (den_sh b u)"
  have pu: "(0::rat) < 2 powi u" by (simp add: power_int_def)
  have rf: "round_frac a b = of_int R * 2 powi u"
    by (simp add: round_frac_def Let_def R_def u_def e_def)
  have "\<bar>of_int R - of_int (num_sh a u) / of_int (den_sh b u)\<bar> \<le> (1 / 2 :: rat)"
    unfolding R_def by (rule round_half_even_div_error) (simp add: den_sh_pos assms)
  then have "\<bar>of_int R - q / 2 powi u\<bar> \<le> (1 / 2 :: rat)"
    by (simp only: sh_quotient [OF assms(2)] q_def)
  then have "\<bar>of_int R - q / 2 powi u\<bar> * 2 powi u \<le> (1 / 2) * 2 powi u"
    using pu by (intro mult_right_mono) auto
  moreover have "\<bar>of_int R - q / 2 powi u\<bar> * 2 powi u = \<bar>of_int R * 2 powi u - q\<bar>"
  proof -
    have "\<bar>of_int R - q / 2 powi u\<bar> * 2 powi u = \<bar>(of_int R - q / 2 powi u) * 2 powi u\<bar>"
      using pu by (simp add: abs_mult)
    also have "(of_int R - q / 2 powi u) * 2 powi u = of_int R * 2 powi u - q"
      using pu by (simp add: field_simps)
    finally show ?thesis .
  qed
  ultimately have err: "\<bar>round_frac a b - q\<bar> \<le> (1 / 2) * 2 powi u" by (simp only: rf)
  have ap: "0 < \<bar>a\<bar>" using assms(1) by simp
  have "2 powi e \<le> (of_int \<bar>a\<bar> / of_int b :: rat)"
    using ilog2_frac_bounds [OF ap assms(2)] by (simp add: e_def)
  also have "(of_int \<bar>a\<bar> / of_int b :: rat) = \<bar>q\<bar>"
    using assms(2) by (simp add: q_def)
  finally have lo: "2 powi e \<le> \<bar>q\<bar>" .
  have "(1 / 2) * (2::rat) powi u = 2 powi e / 2 ^ 53"
  proof -
    have "(2::rat) powi e = 2 powi (u + 52)" by (simp add: u_def)
    also have "\<dots> = 2 powi u * 2 powi 52" by (rule power_int_add) simp
    finally show ?thesis by simp
  qed
  also have "\<dots> \<le> \<bar>q\<bar> / 2 ^ 53" using lo by (simp add: divide_right_mono)
  finally show ?thesis using err unfolding q_def by linarith
qed

lemma round_double_error: "\<bar>round_double q - q\<bar> \<le> \<bar>q\<bar> / 2 ^ 53"
proof -
  obtain a b where ab: "quotient_of q = (a, b)" by (cases "quotient_of q")
  then have b: "0 < b" by (rule quotient_of_denom_pos)
  have q: "q = of_int a / of_int b" using ab by (rule quotient_of_div)
  show ?thesis
  proof (cases "a = 0")
    case True
    then show ?thesis by (simp add: round_double_def ab q)
  next
    case False
    then have "round_double q = round_frac a b" by (simp add: round_double_def ab)
    then show ?thesis using round_frac_error [OF False b] by (simp only: q [symmetric])
  qed
qed

lemma hit_rate_error:
  fixes h n :: rat
  assumes "0 \<le> h" "0 < n"
  shows "\<bar>js_mul (js_div h n) 100 - 100 * h / n\<bar> \<le> (100 * h / n) / 2 ^ 51"
proof -
  define x where "x = h / n"
  define c where "c = round_double x"
  define r where "r = round_double (c * 100)"
  define eps :: rat where "eps = 1 / 2 ^ 53"
  have x0: "0 \<le> x" using assms by (simp add: x_def)
  have e0: "0 < eps" "eps \<le> 1" by (simp_all add: eps_def)
  have c1: "\<bar>c - x\<bar> \<le> x * eps"
    using round_double_error [of x] x0 by (simp add: c_def eps_def)
  then have cb: "c \<le> x + x * eps" "0 \<le> c"
  proof -
    from c1 show "c \<le> x + x * eps" by linarith
    have "x * eps \<le> x * 1" using x0 e0 by (intro mult_left_mono) auto
    with c1 show "0 \<le> c" by linarith
  qed
  have r1: "\<bar>r - c * 100\<bar> \<le> c * 100 * eps"
    using round_double_error [of "c * 100"] cb(2) by (simp add: r_def eps_def)
  define xe where "xe = x * eps"
  have xe0: "0 \<le> xe" using x0 e0 by (simp add: xe_def)
  have "xe * eps \<le> xe * 1" using xe0 e0 by (intro mult_left_mono) auto
  then have xee: "xe * eps \<le> xe" by simp
  have "c * eps \<le> (x + xe) * eps"
    using cb(1) e0 by (intro mult_right_mono) (auto simp: xe_def)
  also have "\<dots> = xe + xe * eps" by (simp add: xe_def algebra_simps)
  finally have ce: "c * eps \<le> 2 * xe" using xee by linarith
  have "\<bar>r - c * 100\<bar> \<le> 100 * (c * eps)" using r1 by (simp add: algebra_simps)
  then have r2: "\<bar>r - c * 100\<bar> \<le> 200 * xe" using ce by linarith
  have c2: "\<bar>c - x\<bar> \<le> xe" using c1 by (simp add: xe_def)
  have "\<bar>r - 100 * x\<bar> = \<bar>(r - c * 100) + 100 * (c - x)\<bar>" by (simp add: algebra_simps)
  also have "\<dots> \<le> \<bar>r - c * 100\<bar> + \<bar>100 * (c - x)\<bar>" by (rule abs_triangle_ineq)
  also have "\<bar>100 * (c - x)\<bar> = 100 * \<bar>c - x\<bar>" by (simp only: abs_mult abs_numeral)
  finally have "\<bar>r - 100 * x\<bar> \<le> \<bar>r - c * 100\<bar> + 100 * \<bar>c - x\<bar>" .
  also have "\<dots> \<le> 200 * xe + 100 * xe"
    using r2 c2 by (intro add_mono mult_left_mono) simp_all
  also have "\<dots> = 300 * xe" by simp
  also have "\<dots> \<le> 400 * xe" using xe0 by simp
  also have "400 * xe = 100 * x * (4 * eps)" by (simp add: xe_def)
  also have "4 * eps = 1 / 2 ^ 51" by (simp add: eps_def)
  finally show ?thesis by (simp add: r_def c_def x_def js_mul_def js_div_def)
qed

lemma js_div_7_100: "js_div 7 100 = of_int 5044031582654956 / of_int 72057594037927936"
proof -
  have "js_div 7 100 = round_double (of_int 7 / of_int 100)" by (simp add: js_div_def)
  also have "\<dots> = round_frac 7 100" by (subst round_double_frac) simp_all
  also have "\<dots> = of_int 5044031582654956 / of_int 72057594037927936"
    by (simp add: round_frac_eval double_eval)
  finally show ?thesis .
qed

lemma hit_rate_7_of_100: "js_mul (js_div 7 100) 100 = 7881299347898369 / 1125899906842624"
proof -
  have "js_mul (js_div 7 100) 100 =
      round_double (of_int (5044031582654956 * 100) / of_int 72057594037927936)"
    by (simp add: js_div_7_100 js_mul_def)
  also have "\<dots> = round_frac (5044031582654956 * 100) 72057594037927936"
    by (subst round_double_frac) simp_all
  also have "\<dots> = 7881299347898369 / 1125899906842624"
    by (simp add: round_frac_eval double_eval)
  finally show ?thesis .
qed

lemma hit_rate_3_of_4: "js_mul (js_div 3 4) 100 = 75"
proof -
  have "js_div 3 4 = round_double (of_int 3 / of_int 4)" by (simp add: js_div_def)
  also have "\<dots> = round_frac 3 4" by (subst round_double_frac) simp_all
  also have "\<dots> = of_int 3 / of_int 4" by (simp add: round_frac_eval double_eval)
  finally have d: "js_div 3 4 = of_int 3 / of_int 4" .
  have "js_mul (js_div 3 4) 100 = round_double (of_int 75 / of_int 1)"
    by (simp add: d js_mul_def)
  also have "\<dots> = round_frac 75 1" by (subst round_double_frac) simp_all
  also have "\<dots> = 75" by (simp add: round_frac_eval double_eval)
  finally show ?thesis .
qed

section \<open>Properties of PerformanceMonitor\<close>

lemma js_slice_from_0: "js_slice_from 0 xs = xs"
  by (simp add: js_slice_from_def)

lemma getRecentMetrics_0: "getRecentMetrics 0 metrics = metrics"
  by (simp add: getRecentMetrics_def js_slice_from_def)

lemma length_addMetric: "length metrics \<le> 100 \<Longrightarrow> length (addMetric m metrics) \<le> 100"
  by (auto simp: addMetric_def maxMetrics_def js_slice_from_def Let_def)

lemma addMetric_append: "length metrics < 100 \<Longrightarrow> addMetric m metrics = metrics @ [m]"
  by (simp add: addMetric_def maxMetrics_def Let_def)

lemma foldl_addMetric_length:
  "length acc \<le> 100 \<Longrightarrow> length (foldl (\<lambda>metrics metric. addMetric metric metrics) acc samples) \<le> 100"
  by (induction samples arbitrary: acc) (simp_all add: length_addMetric)

lemma length_recorded: "length (recorded samples) \<le> 100"
  by (simp add: recorded_def foldl_addMetric_length)

lemma foldl_addMetric_append:
  "length acc + length samples \<le> 100 \<Longrightarrow>
   foldl (\<lambda>metrics metric. addMetric metric metrics) acc samples = acc @ samples"
  by (induction samples arbitrary: acc) (simp_all add: addMetric_append)

lemma recorded_short: "length samples \<le> 100 \<Longrightarrow> recorded samples = samples"
  using foldl_addMetric_append [of "[]" samples] by (simp add: recorded_def)

lemma index_or_0_nth: "i < length xs \<Longrightarrow> index_or_0 xs (int i) = xs ! i"
  by (simp add: index_or_0_def)

lemma p95_getStats:
  assumes "metrics \<noteq> []" "length metrics \<le> 100"
  shows "p95ResponseTime (getStats metrics) =
         sort (map responseTime metrics) ! (length metrics * 95 div 100)"
proof -
  let ?n = "int (length metrics)"
  define i where "i = length metrics * 95 div 100"
  have n: "0 < ?n" "?n \<le> 100" using assms by simp_all
  have "math_floor (js_mul (of_int ?n) lit_0_95) = ?n * 95 div 100" by (rule p95_index [OF n])
  also have "\<dots> = int i" by (simp add: zdiv_int i_def)
  finally have idx: "math_floor (js_mul (of_nat (length metrics)) lit_0_95) = int i" by simp
  have "length metrics * 95 < length metrics * 100" using assms(1) by simp
  then have "i < length metrics" unfolding i_def by (rule less_mult_imp_div_less)
  then have lt: "i < length (sort (map responseTime metrics))" by simp
  have "p95ResponseTime (getStats metrics) = sort (map responseTime metrics) ! i"
    using assms(1) by (simp add: getStats_def Let_def idx index_or_0_nth [OF lt])
  then show ?thesis by (simp only: i_def)
qed

lemma p99_getStats:
  assumes "metrics \<noteq> []" "length metrics \<le> 100"
  shows "p99ResponseTime (getStats metrics) =
         sort (map responseTime metrics) ! (length metrics * 99 div 100)"
proof -
  let ?n = "int (length metrics)"
  define i where "i = length metrics * 99 div 100"
  have n: "0 < ?n" "?n \<le> 100" using assms by simp_all
  have "math_floor (js_mul (of_int ?n) lit_0_99) = ?n * 99 div 100" by (rule p99_index [OF n])
  also have "\<dots> = int i" by (simp add: zdiv_int i_def)
  finally have idx: "math_floor (js_mul (of_nat (length metrics)) lit_0_99) = int i" by simp
  have "length metrics * 99 < length metrics * 100" using assms(1) by simp
  then have "i < length metrics" unfolding i_def by (rule less_mult_imp_div_less)
  then have lt: "i < length (sort (map responseTime metrics))" by simp
  have "p99ResponseTime (getStats metrics) = sort (map responseTime metrics) ! i"
    using assms(1) by (simp add: getStats_def Let_def idx index_or_0_nth [OF lt])
  then show ?thesis by (simp only: i_def)
qed

lemma sorted_tens: "sorted tens"
  unfolding tens_def by (rule sorted_map_same | simp add: sorted_map)+

lemma length_tens: "length tens = 100"
  by (simp add: tens_def)

lemma tens_nth: "i < 100 \<Longrightarrow> tens ! i = 10 * of_nat (Suc i)"
  by (simp add: tens_def)

lemma p95_of_tens:
  assumes "mset (map responseTime metrics) = mset tens"
  shows "p95ResponseTime (getStats metrics) = 960"
proof -
  have len: "length metrics = 100"
    using assms length_tens by (metis length_map size_mset)
  then have ne: "metrics \<noteq> []" by auto
  have "sort (map responseTime metrics) = tens"
    using assms sorted_tens by (simp add: properties_for_sort)
  then show ?thesis
    using p95_getStats [OF ne] len by (simp add: tens_nth)
qed

lemma cacheHitRate_getStats:
  "metrics \<noteq> [] \<Longrightarrow>
   cacheHitRate (getStats metrics) =
     js_mul (js_div (of_nat (length (filter (\<lambda>m. cacheStatus m = Hit) metrics)))
               (of_nat (length metrics))) 100"
  by (simp add: getStats_def Let_def)

lemma responseTime_sample: "map responseTime (map sample ts) = ts"
  by (simp add: sample_def comp_def)

text \<open>
  C8, as amended. For every state the monitor can reach from new by \<^verbatim>\<open>addMetric\<close>, with \<open>n\<close>
  samples in the buffer: if \<open>n = 0\<close>, \<^verbatim>\<open>getStats\<close> returns zero in all five fields; otherwise
  \<^verbatim>\<open>p95ResponseTime\<close> and \<^verbatim>\<open>p99ResponseTime\<close> are the elements at the indices
  \<open>floor (n * 0.95)\<close> and \<open>floor (n * 0.99)\<close> of the response times sorted ascending, and
  \<^verbatim>\<open>cacheHitRate\<close> is the number of hits divided by \<open>n\<close> and multiplied by 100 in double
  arithmetic, each of the two operations rounded: a value within the relative error
  \<open>2 ^ -51\<close> of the exact percentage \<open>100 * hits / n\<close>, not always the percentage itself.
\<close>

theorem getStats_nearest_rank:
  "let metrics = recorded samples;
       n = length metrics;
       sorted_times = sort (map responseTime metrics);
       hits = length (filter (\<lambda>m. cacheStatus m = Hit) metrics)
   in (n = 0 \<longrightarrow>
         getStats metrics =
           \<lparr>count_stat = 0, averageResponseTime = 0, cacheHitRate = 0,
            p95ResponseTime = 0, p99ResponseTime = 0\<rparr>) \<and>
      (0 < n \<longrightarrow>
         p95ResponseTime (getStats metrics) = sorted_times ! (n * 95 div 100) \<and>
         p99ResponseTime (getStats metrics) = sorted_times ! (n * 99 div 100) \<and>
         cacheHitRate (getStats metrics) = js_mul (js_div (of_nat hits) (of_nat n)) 100 \<and>
         \<bar>cacheHitRate (getStats metrics) - 100 * of_nat hits / of_nat n\<bar>
           \<le> 100 * of_nat hits / of_nat n / 2 ^ 51)"
proof -
  have zero: "getStats [] =
      \<lparr>count_stat = 0, averageResponseTime = 0, cacheHitRate = 0,
       p95ResponseTime = 0, p99ResponseTime = 0\<rparr>"
    by (simp add: getStats_def)
  have len: "length (recorded samples) \<le> 100" by (rule length_recorded)
  show ?thesis
    unfolding Let_def
  proof (intro conjI impI)
    assume "length (recorded samples) = 0"
    then show "getStats (recorded samples) =
      \<lparr>count_stat = 0, averageResponseTime = 0, cacheHitRate = 0,
       p95ResponseTime = 0, p99ResponseTime = 0\<rparr>"
      using zero by simp
  next
    assume pos: "0 < length (recorded samples)"
    then have ne: "recorded samples \<noteq> []" by auto
    show "p95ResponseTime (getStats (recorded samples)) =
        sort (map responseTime (recorded samples)) ! (length (recorded samples) * 95 div 100)"
      by (rule p95_getStats [OF ne len])
    show "p99ResponseTime (getStats (recorded samples)) =
        sort (map responseTime (recorded samples)) ! (length (recorded samples) * 99 div 100)"
      by (rule p99_getStats [OF ne len])
    show rate: "cacheHitRate (getStats (recorded samples)) =
        js_mul (js_div (of_nat (length (filter (\<lambda>m. cacheStatus m = Hit) (recorded samples))))
                  (of_nat (length (recorded samples)))) 100"
      by (rule cacheHitRate_getStats [OF ne])
    show "\<bar>cacheHitRate (getStats (recorded samples)) -
          100 * of_nat (length (filter (\<lambda>m. cacheStatus m = Hit) (recorded samples))) /
            of_nat (length (recorded samples))\<bar>
        \<le> 100 * of_nat (length (filter (\<lambda>m. cacheStatus m = Hit) (recorded samples))) /
            of_nat (length (recorded samples)) / 2 ^ 51"
      unfolding rate using pos by (intro hit_rate_error) simp_all
  qed
qed

lemma recorded_three_hits_of_4: "recorded three_hits_of_4 = three_hits_of_4"
  by (simp add: recorded_short three_hits_of_4_def)

lemma cacheHitRate_three_hits_of_4: "cacheHitRate (getStats three_hits_of_4) = 75"
proof -
  have "cacheHitRate (getStats three_hits_of_4) = js_mul (js_div 3 4) 100"
    by (simp add: cacheHitRate_getStats three_hits_of_4_def hit_sample_def sample_def)
  then show ?thesis by (simp only: hit_rate_3_of_4)
qed

theorem getStats_nearest_rank_witness:
  "getStats (recorded []) =
     \<lparr>count_stat = 0, averageResponseTime = 0, cacheHitRate = 0,
      p95ResponseTime = 0, p99ResponseTime = 0\<rparr> \<and>
   0 < length (recorded three_hits_of_4) \<and>
   p95ResponseTime (getStats (recorded three_hits_of_4)) = 40 \<and>
   p99ResponseTime (getStats (recorded three_hits_of_4)) = 40 \<and>
   cacheHitRate (getStats (recorded three_hits_of_4)) = 75 \<and>
   \<bar>cacheHitRate (getStats (recorded three_hits_of_4)) - 100 * 3 / 4\<bar> \<le> 100 * 3 / 4 / 2 ^ 51"
proof -
  have e: "recorded [] = []" by (simp add: recorded_def)
  have s: "sort (map responseTime three_hits_of_4) = [10, 20, 30, 40]"
    by (simp add: three_hits_of_4_def hit_sample_def sample_def)
  have l: "length three_hits_of_4 = 4" by (simp add: three_hits_of_4_def)
  have h: "length (filter (\<lambda>m. cacheStatus m = Hit) three_hits_of_4) = 3"
    by (simp add: three_hits_of_4_def hit_sample_def sample_def)
  show ?thesis
    using getStats_nearest_rank [of "[]"] getStats_nearest_rank [of three_hits_of_4]
    unfolding Let_def recorded_three_hits_of_4 e s l h
    by (simp add: cacheHitRate_three_hits_of_4)
qed

text \<open>
  C8 as stated fails: with 7 hits among 100 samples, \<^verbatim>\<open>cacheHitRate\<close> is the double
  7.000000000000001, not 7.
\<close>

theorem cacheHitRate_7_of_100_inexact:
  "cacheHitRate (getStats (recorded seven_hits_of_100)) = 7881299347898369 / 1125899906842624 \<and>
   cacheHitRate (getStats (recorded seven_hits_of_100)) \<noteq> 7 / 100 * 100"
proof -
  have r: "recorded seven_hits_of_100 = seven_hits_of_100"
    by (simp add: recorded_short seven_hits_of_100_def)
  have "cacheHitRate (getStats seven_hits_of_100) = js_mul (js_div 7 100) 100"
    by (simp add: cacheHitRate_getStats seven_hits_of_100_def hit_sample_def sample_def)
  then have "cacheHitRate (getStats seven_hits_of_100) = 7881299347898369 / 1125899906842624"
    by (simp only: hit_rate_7_of_100)
  then show ?thesis unfolding r by simp
qed

text \<open>
  C4, as amended. After exactly the 100 samples with response times 10, 20, ..., 1000 have
  been recorded, in any order, \<^verbatim>\<open>getStats\<close> returns a \<^verbatim>\<open>p95ResponseTime\<close> of 960: the element
  at the zero-based index 95 of the sorted response times, which is the 96th value. The 95th
  value, 950, is at index 94.
\<close>

theorem p95_of_hundred_samples:
  assumes "mset (map responseTime samples) = mset tens"
  shows "p95ResponseTime (getStats (recorded samples)) = 960 \<and>
         sort (map responseTime (recorded samples)) ! 95 = 960 \<and>
         sort (map responseTime (recorded samples)) ! 94 = 950"
proof -
  have len: "length samples = 100"
    using assms length_tens by (metis length_map size_mset)
  then have r: "recorded samples = samples" by (simp add: recorded_short)
  have "sort (map responseTime samples) = tens"
    using assms sorted_tens by (simp add: properties_for_sort)
  then show ?thesis
    unfolding r using p95_of_tens [OF assms] by (simp add: tens_nth)
qed

theorem p95_of_hundred_samples_witness:
  "mset (map responseTime (map sample (rev tens))) = mset tens \<and>
   p95ResponseTime (getStats (recorded (map sample (rev tens)))) = 960"
proof -
  have h: "mset (map responseTime (map sample (rev tens))) = mset tens"
    by (simp only: responseTime_sample mset_rev)
  show ?thesis using h p95_of_hundred_samples [OF h] by simp
qed

text \<open>
  C4 as stated fails: with the samples 10, 20, ..., 1000 recorded in ascending order,
  \<^verbatim>\<open>p95ResponseTime\<close> is not 950.
\<close>

theorem p95_of_hundred_samples_not_950:
  "p95ResponseTime (getStats (recorded (map sample tens))) \<noteq> 950"
proof -
  have h: "mset (map responseTime (map sample tens)) = mset tens"
    by (simp only: responseTime_sample)
  have "recorded (map sample tens) = map sample tens"
    by (simp add: recorded_short length_tens)
  then show ?thesis using p95_of_tens [OF h] by simp
qed

lemma addMetric_not_Nil: "addMetric m metrics \<noteq> []"
proof -
  have "0 < length (addMetric m metrics)"
    by (simp add: addMetric_def Let_def js_slice_from_def maxMetrics_def)
  then show ?thesis by auto
qed

lemma recorded_snoc: "recorded (xs @ [x]) = addMetric x (recorded xs)"
  by (simp add: recorded_def)

lemma recorded_not_Nil: "samples \<noteq> [] \<Longrightarrow> recorded samples \<noteq> []"
  by (cases samples rule: rev_cases) (simp_all add: recorded_snoc addMetric_not_Nil)

text \<open>
  C10. \<^verbatim>\<open>getRecentMetrics(0)\<close> returns every stored sample, in the order of the buffer
  (oldest first), not the empty list: \<^verbatim>\<open>slice(-0)\<close> is \<^verbatim>\<open>slice(0)\<close>.
\<close>

theorem getRecentMetrics_limit_zero:
  "getRecentMetrics 0 (recorded samples) = recorded samples \<and>
   (samples \<noteq> [] \<longrightarrow> getRecentMetrics 0 (recorded samples) \<noteq> [])"
  by (simp add: getRecentMetrics_0 recorded_not_Nil)

theorem getRecentMetrics_limit_zero_witness:
  "getRecentMetrics 0 (recorded [sample 30, sample 10]) = [sample 30, sample 10]"
proof -
  have r: "recorded [sample 30, sample 10] = [sample 30, sample 10]"
    by (simp add: recorded_short)
  show ?thesis using getRecentMetrics_limit_zero [of "[sample 30, sample 10]"] unfolding r by simp
qed

section \<open>Properties of RateLimiter\<close>

lemma isAllowed_unfold:
  "isAllowed i now rl =
     (if int (length (filter (\<lambda>t. now - windowMs rl < t) (history rl i))) < maxRequests rl
      then (True, rl\<lparr>requests := (requests rl)(i \<mapsto> filter (\<lambda>t. now - windowMs rl < t) (history rl i) @ [now])\<rparr>)
      else (False, rl))"
proof -
  have "(\<lambda>t. now - t < windowMs rl) = (\<lambda>t. now - windowMs rl < t)" by auto
  then show ?thesis by (auto simp: isAllowed_def history_def Let_def)
qed

lemma history_update [simp]:
  "history (rl\<lparr>requests := (requests rl)(i \<mapsto> ts)\<rparr>) i = ts"
  by (simp add: history_def)

lemma calls_within_window:
  assumes "\<forall>t\<in>set (history rl i) \<union> set ts. \<forall>u\<in>set ts. u - t < windowMs rl"
    and "maxRequests rl = int m" and "length (history rl i) \<le> m"
  shows "fst (isAllowed_calls i ts rl) =
           replicate (min (length ts) (m - length (history rl i))) True @
           replicate (length ts - (m - length (history rl i))) False \<and>
         history (snd (isAllowed_calls i ts rl)) i =
           history rl i @ take (m - length (history rl i)) ts \<and>
         maxRequests (snd (isAllowed_calls i ts rl)) = maxRequests rl \<and>
         windowMs (snd (isAllowed_calls i ts rl)) = windowMs rl"
  using assms
proof (induction ts arbitrary: rl)
  case Nil
  then show ?case by simp
next
  case (Cons now later)
  let ?h = "history rl i"
  have "now - windowMs rl < x" if "x \<in> set ?h" for x
  proof -
    have "now - x < windowMs rl" using Cons.prems(1) that by simp
    then show ?thesis by linarith
  qed
  then have all: "filter (\<lambda>t. now - windowMs rl < t) ?h = ?h"
    by (simp add: filter_id_conv)
  show ?case
  proof (cases "length ?h < m")
    case True
    let ?rl' = "rl\<lparr>requests := (requests rl)(i \<mapsto> ?h @ [now])\<rparr>"
    have step: "isAllowed i now rl = (True, ?rl')"
      using True Cons.prems(2) by (simp add: isAllowed_unfold all)
    have h': "history ?rl' i = ?h @ [now]" by simp
    have p1: "\<forall>t\<in>set (history ?rl' i) \<union> set later. \<forall>u\<in>set later. u - t < windowMs ?rl'"
      using Cons.prems(1) by (auto simp: h')
    have p2: "maxRequests ?rl' = int m" using Cons.prems(2) by simp
    have p3: "length (history ?rl' i) \<le> m" using True by (simp add: h')
    note ih = Cons.IH [OF p1 p2 p3]
    have m: "m - length ?h = Suc (m - Suc (length ?h))" using True by simp
    show ?thesis
      using ih True unfolding h'
      by (simp add: step split_beta m)
  next
    case False
    then have eq: "length ?h = m" using Cons.prems(3) by simp
    have step: "isAllowed i now rl = (False, rl)"
      using eq Cons.prems(2) by (simp add: isAllowed_unfold all)
    have p1: "\<forall>t\<in>set (history rl i) \<union> set later. \<forall>u\<in>set later. u - t < windowMs rl"
      using Cons.prems(1) by auto
    note ih = Cons.IH [OF p1 Cons.prems(2) Cons.prems(3)]
    show ?thesis using ih eq by (simp add: step split_beta)
  qed
qed

lemma isAllowed_window_elapsed:
  assumes "\<forall>t\<in>set (history rl i). windowMs rl \<le> now - t" "0 < maxRequests rl"
  shows "fst (isAllowed i now rl)"
proof -
  have "\<not> now - windowMs rl < x" if "x \<in> set (history rl i)" for x
  proof -
    have "windowMs rl \<le> now - x" using assms(1) that by simp
    then show ?thesis by linarith
  qed
  then have "filter (\<lambda>t. now - windowMs rl < t) (history rl i) = []"
    by (simp add: filter_empty_conv)
  then show ?thesis using assms(2) by (simp add: isAllowed_unfold)
qed

text \<open>
  C3, as amended. For every identifier, \<^verbatim>\<open>isAllowed\<close> keeps of the recorded timestamps those
  less than \<^verbatim>\<open>windowMs\<close> old (\<open>now - windowMs < t\<close>: a timestamp exactly \<^verbatim>\<open>windowMs\<close> old is
  dropped), admits and appends \<open>now\<close> exactly when fewer than \<^verbatim>\<open>maxRequests\<close> are kept, and
  otherwise rejects and stores nothing. With \<^verbatim>\<open>maxRequests = 5\<close> and \<^verbatim>\<open>windowMs = 1000\<close>, of the
  calls of a fresh identifier that lie pairwise less than 1000 ms apart exactly the first 5
  are admitted and every later one is rejected; a call 1000 ms or more after each admitted
  one is admitted again.
\<close>

theorem isAllowed_sliding_window:
  "isAllowed i now rl =
     (if int (length (filter (\<lambda>t. now - windowMs rl < t) (history rl i))) < maxRequests rl
      then (True,
            rl\<lparr>requests := (requests rl)
                 (i \<mapsto> filter (\<lambda>t. now - windowMs rl < t) (history rl i) @ [now])\<rparr>)
      else (False, rl)) \<and>
   (maxRequests rl = 5 \<and> windowMs rl = 1000 \<and> history rl i = [] \<and>
    (\<forall>u\<in>set ts. \<forall>v\<in>set ts. v - u < 1000) \<longrightarrow>
      fst (isAllowed_calls i ts rl) =
        replicate (min (length ts) 5) True @ replicate (length ts - 5) False \<and>
      (\<forall>later. (\<forall>u\<in>set (take 5 ts). 1000 \<le> later - u) \<longrightarrow>
         fst (isAllowed i later (snd (isAllowed_calls i ts rl)))))"
proof (intro conjI impI)
  show "isAllowed i now rl =
     (if int (length (filter (\<lambda>t. now - windowMs rl < t) (history rl i))) < maxRequests rl
      then (True,
            rl\<lparr>requests := (requests rl)
                 (i \<mapsto> filter (\<lambda>t. now - windowMs rl < t) (history rl i) @ [now])\<rparr>)
      else (False, rl))"
    by (rule isAllowed_unfold)
next
  assume a: "maxRequests rl = 5 \<and> windowMs rl = 1000 \<and> history rl i = [] \<and>
    (\<forall>u\<in>set ts. \<forall>v\<in>set ts. v - u < 1000)"
  then have p1: "\<forall>t\<in>set (history rl i) \<union> set ts. \<forall>u\<in>set ts. u - t < windowMs rl"
    and p2: "maxRequests rl = int 5" and p3: "length (history rl i) \<le> 5"
    and h: "history rl i = []"
    by simp_all
  note run = calls_within_window [OF p1 p2 p3]
  from run h show "fst (isAllowed_calls i ts rl) =
      replicate (min (length ts) 5) True @ replicate (length ts - 5) False"
    by simp
  show "\<forall>later. (\<forall>u\<in>set (take 5 ts). 1000 \<le> later - u) \<longrightarrow>
      fst (isAllowed i later (snd (isAllowed_calls i ts rl)))"
  proof (intro allI impI)
    fix later
    assume old: "\<forall>u\<in>set (take 5 ts). 1000 \<le> later - u"
    let ?rl' = "snd (isAllowed_calls i ts rl)"
    have h': "history ?rl' i = take 5 ts" using run h by simp
    have w': "windowMs ?rl' = 1000" and m': "0 < maxRequests ?rl'" using run a by simp_all
    show "fst (isAllowed i later ?rl')"
      by (rule isAllowed_window_elapsed) (simp_all add: h' w' m' old)
  qed
qed

text \<open>
  Six calls within 999 ms: five admitted, the sixth rejected; the call at 1400, which is
  1000 ms after the last admitted one, is admitted.
\<close>

theorem isAllowed_sliding_window_witness:
  "fst (isAllowed_calls ''id'' [0, 100, 200, 300, 400, 999] limiter_5_1000) =
     [True, True, True, True, True, False] \<and>
   fst (isAllowed ''id'' 1400
          (snd (isAllowed_calls ''id'' [0, 100, 200, 300, 400, 999] limiter_5_1000)))"
proof -
  have h: "maxRequests limiter_5_1000 = 5 \<and> windowMs limiter_5_1000 = 1000 \<and>
      history limiter_5_1000 ''id'' = [] \<and>
      (\<forall>u\<in>set [0, 100, 200, 300, 400, 999::int]. \<forall>v\<in>set [0, 100, 200, 300, 400, 999]. v - u < 1000)"
    by (simp add: limiter_5_1000_def history_def)
  from isAllowed_sliding_window [of "''id''" 0 limiter_5_1000 "[0, 100, 200, 300, 400, 999]"] h
  have r: "fst (isAllowed_calls ''id'' [0, 100, 200, 300, 400, 999] limiter_5_1000) =
      replicate (min (length [0, 100, 200, 300, 400, 999::int]) 5) True @
      replicate (length [0, 100, 200, 300, 400, 999::int] - 5) False"
    and l: "\<forall>later. (\<forall>u\<in>set (take 5 [0, 100, 200, 300, 400, 999::int]). 1000 \<le> later - u) \<longrightarrow>
         fst (isAllowed ''id'' later
                (snd (isAllowed_calls ''id'' [0, 100, 200, 300, 400, 999] limiter_5_1000)))"
    by blast+
  have "\<forall>u\<in>set (take 5 [0, 100, 200, 300, 400, 999::int]). 1000 \<le> 1400 - u" by simp
  with l have "fst (isAllowed ''id'' 1400
      (snd (isAllowed_calls ''id'' [0, 100, 200, 300, 400, 999] limiter_5_1000)))"
    by blast
  with r show ?thesis by (simp add: numeral_eq_Suc)
qed

text \<open>
  C3 as stated fails. After five admitted calls at time 0, a sixth call at time 1000 lies
  within the 1-second span and sees all five timestamps inside the closed window from
  \<open>now - windowMs\<close> to \<open>now\<close>, so the rule as stated rejects it; the code admits it.
\<close>

theorem isAllowed_admits_at_window_boundary:
  "history after_five_at_0 ''id'' = [0, 0, 0, 0, 0] \<and>
   fst (isAllowed ''id'' 1000 after_five_at_0) \<and>
   \<not> fst (isAllowed_closed_window ''id'' 1000 after_five_at_0) \<and>
   fst (isAllowed_calls ''id'' [0, 0, 0, 0, 0, 1000] limiter_5_1000) =
     [True, True, True, True, True, True]"
  by (simp add: after_five_at_0_def limiter_5_1000_def isAllowed_def
      isAllowed_closed_window_def history_def Let_def)

section \<open>Properties of EdgeCache\<close>

lemma next_request_ok_update [simp]:
  "next_request_ok (w\<lparr>ticks := t\<rparr>) = next_request_ok w"
  "next_request_ok (w\<lparr>console := c\<rparr>) = next_request_ok w"
  "next_request_ok (w\<lparr>memoryCache := m\<rparr>) = next_request_ok w"
  "next_request_ok (w\<lparr>kv_calls := cs\<rparr>) = next_request_ok w"
  "next_request_ok (w\<lparr>kv_store := st\<rparr>) = next_request_ok w"
  by (simp_all add: next_request_ok_def)

lemma get_memory_miss:
  "\<not> memory_fresh cacheKey w \<Longrightarrow> get_memory key cacheKey w = (None, after_memory_miss cacheKey w)"
  by (auto simp: get_memory_def memory_fresh_def after_memory_miss_def date_now_def
      split: option.splits)


lemma get_kv_hit:
  assumes "next_request_ok w" "map_of (kv_store w) cacheKey = Some kvCached"
    "truthy (jd_data kvCached)"
  shows "get_kv key cacheKey w =
     (Some (jd_data kvCached),
      w\<lparr>kv_faults := tl (kv_faults w), kv_calls := kv_calls w @ [KvGet cacheKey],
        console := console w @ [LogKVHit key], ticks := Suc (ticks w),
        memoryCache := (memoryCache w)(cacheKey \<mapsto>
          \<lparr>data = jd_data kvCached, expires = clock w (ticks w) + 10000\<rparr>)\<rparr>)"
  using assms
  by (simp add: get_kv_def db_get_def kv_get_def kv_request_def after_request_def
      console_log_def date_now_def memory_put_def)

lemma get_kv_fault:
  "\<not> next_request_ok w \<Longrightarrow>
   get_kv key cacheKey w =
     (None, (after_request (KvGet cacheKey) w)
        \<lparr>console := console w @ [WarnKVError key KVError]\<rparr>)"
  by (simp add: get_kv_def db_get_def kv_get_def kv_request_def after_request_def
      console_log_def)

lemma get_kv_absent:
  "next_request_ok w \<Longrightarrow> map_of (kv_store w) cacheKey = None \<Longrightarrow>
   get_kv key cacheKey w = (None, after_request (KvGet cacheKey) w)"
  by (simp add: get_kv_def db_get_def kv_get_def kv_request_def after_request_def)

lemma get_kv_falsy:
  "next_request_ok w \<Longrightarrow> map_of (kv_store w) cacheKey = Some kvCached \<Longrightarrow>
   \<not> truthy (jd_data kvCached) \<Longrightarrow>
   get_kv key cacheKey w = (None, after_request (KvGet cacheKey) w)"
  by (simp add: get_kv_def db_get_def kv_get_def kv_request_def after_request_def)

lemma after_memory_miss_fields [simp]:
  "kv_store (after_memory_miss ck w) = kv_store w"
  "kv_faults (after_memory_miss ck w) = kv_faults w"
  "kv_calls (after_memory_miss ck w) = kv_calls w"
  "console (after_memory_miss ck w) = console w"
  "memoryCache (after_memory_miss ck w) = memoryCache w"
  "clock (after_memory_miss ck w) = clock w"
  by (simp_all add: after_memory_miss_def split: option.splits)

lemma next_request_ok_after_memory_miss [simp]:
  "next_request_ok (after_memory_miss ck w) = next_request_ok w"
  by (simp add: next_request_ok_def)



lemma get_fresh_None: "get_fresh key None ttl w = (Json JNull, w)"
  by (simp add: get_fresh_def)

lemma get_fresh_Some:
  "get_fresh key (Some f) ttl w =
     (case f (w\<lparr>console := console w @ [LogMiss key]\<rparr>) of
        (Inl err, w3) \<Rightarrow> (Json JNull, w3\<lparr>console := console w3 @ [ErrorFetcher key err]\<rparr>)
      | (Inr v, w3) \<Rightarrow> (v, set_cache key v (Some ttl) w3))"
  by (simp add: get_fresh_def console_log_def split: prod.splits sum.splits)

lemma get_after_memory_miss:
  "\<not> memory_fresh (CACHE_PREFIX @ key) w \<Longrightarrow>
   get key fetcher ttl w =
     (case get_kv key (CACHE_PREFIX @ key) (after_memory_miss (CACHE_PREFIX @ key) w) of
        (Some v, w2) \<Rightarrow> (v, w2)
      | (None, w2) \<Rightarrow> get_fresh key fetcher (ttl_or_default ttl) w2)"
  by (simp add: get_def Let_def get_memory_miss)

lemma get_durable_hit:
  assumes "\<not> memory_fresh (CACHE_PREFIX @ key) w" "next_request_ok w"
    "map_of (kv_store w) (CACHE_PREFIX @ key) = Some kvCached" "truthy (jd_data kvCached)"
  shows "get key fetcher ttl w =
     (jd_data kvCached,
      (after_memory_miss (CACHE_PREFIX @ key) w)
        \<lparr>kv_faults := tl (kv_faults w),
         kv_calls := kv_calls w @ [KvGet (CACHE_PREFIX @ key)],
         console := console w @ [LogKVHit key],
         ticks := Suc (ticks (after_memory_miss (CACHE_PREFIX @ key) w)),
         memoryCache := (memoryCache w)(CACHE_PREFIX @ key \<mapsto>
           \<lparr>data = jd_data kvCached,
            expires = clock w (ticks (after_memory_miss (CACHE_PREFIX @ key) w)) + 10000\<rparr>)\<rparr>)"
proof -
  let ?w1 = "after_memory_miss (CACHE_PREFIX @ key) w"
  have a: "next_request_ok ?w1" using assms(2) by simp
  have b: "map_of (kv_store ?w1) (CACHE_PREFIX @ key) = Some kvCached" using assms(3) by simp
  show ?thesis
    by (simp add: get_after_memory_miss [OF assms(1)] get_kv_hit [OF a b assms(4)])
qed

lemma get_durable_miss:
  assumes "\<not> memory_fresh (CACHE_PREFIX @ key) w"
    and "\<not> (next_request_ok w \<and>
            (\<exists>kvCached. map_of (kv_store w) (CACHE_PREFIX @ key) = Some kvCached \<and>
               truthy (jd_data kvCached)))"
  shows "get key fetcher ttl w =
     get_fresh key fetcher (ttl_or_default ttl)
       ((after_request (KvGet (CACHE_PREFIX @ key)) (after_memory_miss (CACHE_PREFIX @ key) w))
          \<lparr>console := console w @
             (if next_request_ok w then [] else [WarnKVError key KVError])\<rparr>)"
proof -
  let ?ck = "CACHE_PREFIX @ key"
  let ?w1 = "after_memory_miss ?ck w"
  show ?thesis
  proof (cases "next_request_ok w")
    case False
    then have "\<not> next_request_ok ?w1" by simp
    then show ?thesis
      using False by (simp add: get_after_memory_miss [OF assms(1)] get_kv_fault)
  next
    case True
    then have ok: "next_request_ok ?w1" by simp
    have same: "(after_request (KvGet ?ck) ?w1)\<lparr>console := console w\<rparr> = after_request (KvGet ?ck) ?w1"
      by (simp add: after_request_def)
    show ?thesis
    proof (cases "map_of (kv_store w) ?ck")
      case None
      then have "map_of (kv_store ?w1) ?ck = None" by simp
      then show ?thesis
        using True by (simp add: get_after_memory_miss [OF assms(1)] get_kv_absent [OF ok] same)
    next
      case (Some kvCached)
      then have s: "map_of (kv_store ?w1) ?ck = Some kvCached" by simp
      have f: "\<not> truthy (jd_data kvCached)" using assms(2) True Some by simp
      show ?thesis
        using True
        by (simp add: get_after_memory_miss [OF assms(1)] get_kv_falsy [OF ok s f] same)
    qed
  qed
qed


lemmas world_eval =
  world0_def world_stored_def world_stored_zero_def world_both_def world_both_down_def
  world_expired_def world_flaky_def record_of_def fetch_new_def

text \<open>
  C6. If the memory cache has an entry for the key whose expiry is not later than the clock
  reading \<^verbatim>\<open>get\<close> takes, \<^verbatim>\<open>get\<close> does not return from the memory cache. Without a fetcher it
  makes exactly one request to the store, logs no memory hit and returns the store's truthy
  value, or \<^verbatim>\<open>null\<close>. With a fetcher it returns as without one when the store has a truthy
  value, and otherwise calls the fetcher and returns its value, or \<^verbatim>\<open>null\<close> when it rejects.
\<close>

theorem expired_entry_not_served:
  assumes "memoryCache w (CACHE_PREFIX @ key) = Some e" and "expires e \<le> clock w (ticks w)"
  shows "fst (get key None ttl w) =
           (if next_request_ok w then
              (case map_of (kv_store w) (CACHE_PREFIX @ key) of
                 None \<Rightarrow> Json JNull
               | Some kvCached \<Rightarrow>
                   if truthy (jd_data kvCached) then jd_data kvCached else Json JNull)
            else Json JNull) \<and>
         kv_calls (snd (get key None ttl w)) = kv_calls w @ [KvGet (CACHE_PREFIX @ key)] \<and>
         LogMemoryHit key \<notin> set (drop (length (console w)) (console (snd (get key None ttl w)))) \<and>
         get key (Some f) ttl w =
           (if next_request_ok w \<and>
               (case map_of (kv_store w) (CACHE_PREFIX @ key) of
                  None \<Rightarrow> False | Some kvCached \<Rightarrow> truthy (jd_data kvCached))
            then get key None ttl w
            else
              (case f (w\<lparr>ticks := Suc (ticks w), kv_faults := tl (kv_faults w),
                         kv_calls := kv_calls w @ [KvGet (CACHE_PREFIX @ key)],
                         console := console w @
                           (if next_request_ok w then [] else [WarnKVError key KVError]) @
                           [LogMiss key]\<rparr>) of
                 (Inl err, w3) \<Rightarrow> (Json JNull, w3\<lparr>console := console w3 @ [ErrorFetcher key err]\<rparr>)
               | (Inr v, w3) \<Rightarrow> (v, set_cache key v (Some (ttl_or_default ttl)) w3)))"
proof -
  let ?ck = "CACHE_PREFIX @ key"
  have stale: "\<not> memory_fresh ?ck w" using assms by (simp add: memory_fresh_def)
  have w1: "after_memory_miss ?ck w = w\<lparr>ticks := Suc (ticks w)\<rparr>"
    using assms(1) by (simp add: after_memory_miss_def)
  show ?thesis
  proof (cases "next_request_ok w \<and>
      (case map_of (kv_store w) ?ck of None \<Rightarrow> False | Some kvCached \<Rightarrow> truthy (jd_data kvCached))")
    case True
    then obtain kvCached where s: "map_of (kv_store w) ?ck = Some kvCached"
      and t: "truthy (jd_data kvCached)" and ok: "next_request_ok w"
      by (auto split: option.splits)
    show ?thesis
      using True by (simp add: get_durable_hit [OF stale ok s t] s t)
  next
    case False
    then have miss: "\<not> (next_request_ok w \<and>
        (\<exists>kvCached. map_of (kv_store w) ?ck = Some kvCached \<and> truthy (jd_data kvCached)))"
      by (auto split: option.splits)
    show ?thesis
      using False
      by (auto simp: get_durable_miss [OF stale miss] get_fresh_None get_fresh_Some w1
          after_request_def split: option.splits)
  qed
qed

text \<open>
  An entry that expired at 900 is read at 1000: the value comes from the store.
\<close>

theorem expired_entry_not_served_witness:
  "memoryCache world_expired ''cache:k'' = Some \<lparr>data = Json (JStr ''old''), expires = 900\<rparr> \<and>
   900 \<le> clock world_expired (ticks world_expired) \<and>
   fst (get ''k'' None None world_expired) = Json (JStr ''fresh'') \<and>
   kv_calls (snd (get ''k'' None None world_expired)) = [KvGet ''cache:k'']"
  using expired_entry_not_served
    [of world_expired "''k''" "\<lparr>data = Json (JStr ''old''), expires = 900\<rparr>" None]
  by (simp add: world_eval CACHE_PREFIX_def next_request_ok_def)

text \<open>
  C9. When the memory cache has no fresh entry, the store answers and its record for the key
  holds a falsy value, \<^verbatim>\<open>get\<close> treats the store as a miss: without a fetcher it returns
  \<^verbatim>\<open>null\<close> and leaves the memory cache as it was; with a fetcher it calls the fetcher, on a
  state in which the memory cache is still as it was, and returns the fetcher's value.
\<close>

theorem falsy_durable_value_is_a_miss:
  assumes "\<not> memory_fresh (CACHE_PREFIX @ key) w" and "next_request_ok w"
    and "map_of (kv_store w) (CACHE_PREFIX @ key) = Some kvCached"
    and "\<not> truthy (jd_data kvCached)"
  shows "get key None ttl w =
           (Json JNull,
            after_request (KvGet (CACHE_PREFIX @ key)) (after_memory_miss (CACHE_PREFIX @ key) w)) \<and>
         memoryCache (snd (get key None ttl w)) = memoryCache w \<and>
         get key (Some f) ttl w =
           (case f ((after_request (KvGet (CACHE_PREFIX @ key))
                       (after_memory_miss (CACHE_PREFIX @ key) w))
                    \<lparr>console := console w @ [LogMiss key]\<rparr>) of
              (Inl err, w3) \<Rightarrow> (Json JNull, w3\<lparr>console := console w3 @ [ErrorFetcher key err]\<rparr>)
            | (Inr v, w3) \<Rightarrow> (v, set_cache key v (Some (ttl_or_default ttl)) w3))"
proof -
  have miss: "\<not> (next_request_ok w \<and>
      (\<exists>kvCached. map_of (kv_store w) (CACHE_PREFIX @ key) = Some kvCached \<and>
         truthy (jd_data kvCached)))"
    using assms(3,4) by simp
  show ?thesis
    using assms(2)
    by (simp add: get_durable_miss [OF assms(1) miss] get_fresh_None get_fresh_Some
        after_request_def)
qed

text \<open>
  The store holds the number 0 for the key: \<^verbatim>\<open>get\<close> returns \<^verbatim>\<open>null\<close> without a fetcher and the
  fetcher's value with one. The number 0, \<^verbatim>\<open>false\<close>, the empty string and \<^verbatim>\<open>null\<close> are falsy.
\<close>

theorem falsy_durable_value_is_a_miss_witness:
  "\<not> memory_fresh ''cache:k'' world_stored_zero \<and> next_request_ok world_stored_zero \<and>
   map_of (kv_store world_stored_zero) ''cache:k'' = Some (record_of ''cache:k'' (Json (JNum 0))) \<and>
   \<not> truthy (jd_data (record_of ''cache:k'' (Json (JNum 0)))) \<and>
   fst (get ''k'' None None world_stored_zero) = Json JNull \<and>
   memoryCache (snd (get ''k'' None None world_stored_zero)) ''cache:k'' = None \<and>
   fst (get ''k'' (Some fetch_new) None world_stored_zero) = Json (JStr ''new'') \<and>
   \<not> truthy (Json (JBool False)) \<and> \<not> truthy (Json (JStr [])) \<and> \<not> truthy (Json JNull)"
  using falsy_durable_value_is_a_miss
    [of "''k''" world_stored_zero "record_of ''cache:k'' (Json (JNum 0))" None fetch_new]
  by (simp add: world_eval CACHE_PREFIX_def next_request_ok_def memory_fresh_def
      after_request_def after_memory_miss_def)












lemma next_request_ok_iff: "next_request_ok w \<longleftrightarrow> True \<notin> set (take 1 (kv_faults w))"
  by (cases "kv_faults w") (simp_all add: next_request_ok_def)















end
